theory Spec2Isabelle
  imports Main "HOL-Library.Word"
begin

unbundle bit_operations_syntax

section \<open>The hash set of hashset.h\<close>

text \<open>
  A shallow embedding of the functions that the macro \<^verbatim>\<open>HASHSET_DECLARE(prefix, type,
  hash_fn, eq_fn)\<close> generates. The value type is the type variable \<open>'a\<close>; the hash and
  the equality function are parameters of every operation that calls them, as they are
  parameters of the macro.

  Machine integers, as on an LP64 platform. \<^verbatim>\<open>hashset_hash_t\<close> and
  \<^verbatim>\<open>unsigned int\<close> are 32-bit words, \<^verbatim>\<open>uint8_t\<close> is an 8-bit word. Values of
  type \<^verbatim>\<open>size_t\<close> (size, capacity, slot indices) are natural numbers below
  \<open>2 ^ 64\<close>, with the wrap-around of every \<^verbatim>\<open>size_t\<close> operation of the source
  written out; the index of the probe, a \<^verbatim>\<open>hashset_hash_t\<close> in the source, is a
  natural number below \<open>2 ^ 32\<close>, truncated where the source assigns to it.

  Memory. An array pointer is an optional list: \<open>None\<close> is \<^verbatim>\<open>NULL\<close>. Reading or
  writing through \<^verbatim>\<open>NULL\<close> or beyond the end of an array is undefined behaviour in C;
  the model returns a \<open>fault\<close> there. A pointer to a set is an optional record, and an
  operation returns the record the pointer refers to afterwards.

  Results. An operation returns \<open>None\<close> when it does not terminate, \<open>Some (Inl f)\<close> when
  it runs into the fault \<open>f\<close>, and \<open>Some (Inr r)\<close> when it returns \<open>r\<close>.
\<close>

type_synonym u8 = "8 word"
type_synonym u32 = "32 word"

datatype fault = NullDeref | OutOfBounds

type_synonym 'a size_pair = "'a \<times> u32"

record 'a hset =
  data :: "'a size_pair list option"
  state :: "u8 list option"
  ssize :: nat
  capacity :: nat

type_synonym 'a hash_fn = "'a \<Rightarrow> u32 \<Rightarrow> u32"
type_synonym 'a eq_fn = "'a \<Rightarrow> u32 \<Rightarrow> 'a \<Rightarrow> u32 \<Rightarrow> bool"

subsection \<open>Arrays and the allocator\<close>

definition arr_read :: "'x list option \<Rightarrow> nat \<Rightarrow> fault + 'x" where
  "arr_read arr i =
     (case arr of
        None \<Rightarrow> Inl NullDeref
      | Some xs \<Rightarrow> if i < length xs then Inr (xs ! i) else Inl OutOfBounds)"

definition arr_write :: "'x list option \<Rightarrow> nat \<Rightarrow> 'x \<Rightarrow> fault + 'x list option" where
  "arr_write arr i v =
     (case arr of
        None \<Rightarrow> Inl NullDeref
      | Some xs \<Rightarrow> if i < length xs then Inr (Some (xs[i := v])) else Inl OutOfBounds)"

text \<open>
  \<^verbatim>\<open>HASHSET_CALLOC\<close> returns \<^verbatim>\<open>NULL\<close> or a zeroed array. Whether a request succeeds is
  a parameter of the model: \<open>al k n\<close> tells whether the request for \<open>n\<close> elements of
  array kind \<open>k\<close> succeeds.
\<close>

datatype array_kind = Entries | States

type_synonym allocator = "array_kind \<Rightarrow> nat \<Rightarrow> bool"

definition calloc_data :: "allocator \<Rightarrow> nat \<Rightarrow> ('a::zero) size_pair list option" where
  "calloc_data al n = (if al Entries n then Some (replicate n (0, 0)) else None)"

definition calloc_state :: "allocator \<Rightarrow> nat \<Rightarrow> u8 list option" where
  "calloc_state al n = (if al States n then Some (replicate n 0) else None)"

definition calloc_ok :: allocator where
  "calloc_ok k n = True"

definition calloc_fails :: allocator where
  "calloc_fails k n = False"

text \<open>
  \<^verbatim>\<open>HASHSET_FREE\<close> releases a block. Arrays are values in this model, so releasing
  the old arrays in \<^verbatim>\<open>resize\<close> leaves nothing to track; \<^verbatim>\<open>destroy\<close>, whose only
  work is to release, returns the blocks it hands to \<^verbatim>\<open>HASHSET_FREE\<close>, in the order
  of the calls.
\<close>

datatype 'a block = Entry_block "'a size_pair list" | State_block "u8 list"

subsection \<open>Configuration\<close>

definition HASHSET_INITIAL_CAPACITY :: nat where
  "HASHSET_INITIAL_CAPACITY = 16"

text \<open>
  The test \<^verbatim>\<open>(double)set->size / set->capacity > HASHSET_MAX_LOAD_FACTOR\<close> with the
  default factor 0.7. For a size and a capacity below \<open>2 ^ 53\<close> the conversions to
  \<^verbatim>\<open>double\<close> are exact, and the rounded quotient exceeds the \<^verbatim>\<open>double\<close> nearest to
  0.7 exactly when the quotient of the integers exceeds 7/10; a capacity of 0 gives
  infinity (greater) for a positive size and NaN (not greater) for size 0. So the test is
  modelled as the integer comparison below.
\<close>

definition load_exceeded :: "'a hset \<Rightarrow> bool" where
  "load_exceeded s = (7 * capacity s < 10 * ssize s)"

definition to_size_t :: "nat \<Rightarrow> nat" where
  "to_size_t n = n mod 2 ^ 64"

definition to_hash_t :: "nat \<Rightarrow> nat" where
  "to_hash_t n = n mod 2 ^ 32"

subsection \<open>init and destroy\<close>

definition set_init :: "allocator \<Rightarrow> ('a::zero) hset option \<Rightarrow> int \<times> 'a hset option" where
  "set_init al setp =
     (case setp of
        None \<Rightarrow> (- 1, None)
      | Some s \<Rightarrow>
          (0, Some (s\<lparr>ssize := 0,
                      capacity := HASHSET_INITIAL_CAPACITY,
                      data := calloc_data al HASHSET_INITIAL_CAPACITY,
                      state := calloc_state al HASHSET_INITIAL_CAPACITY\<rparr>)))"

definition set_destroy :: "'a hset option \<Rightarrow> 'a block list \<times> 'a hset option" where
  "set_destroy setp =
     (case setp of
        None \<Rightarrow> ([], None)
      | Some s \<Rightarrow>
          ((case data s of None \<Rightarrow> [] | Some d \<Rightarrow> [Entry_block d]) @
           (case state s of None \<Rightarrow> [] | Some st \<Rightarrow> [State_block st]),
           Some (s\<lparr>data := None, state := None, ssize := 0, capacity := 0\<rparr>)))"

subsection \<open>The probe: find_slot\<close>

text \<open>
  The condition of the \<^verbatim>\<open>while\<close> loop: \<^verbatim>\<open>&&\<close> reads the entry only when the slot
  is occupied.
\<close>

definition probe_cond :: "'a eq_fn \<Rightarrow> 'a hset \<Rightarrow> 'a \<Rightarrow> u32 \<Rightarrow> nat \<Rightarrow> fault + bool" where
  "probe_cond eq_fn s key key_len idx =
     (case arr_read (state s) idx of
        Inl f \<Rightarrow> Inl f
      | Inr st \<Rightarrow>
          if st = 1 then
            (case arr_read (data s) idx of
               Inl f \<Rightarrow> Inl f
             | Inr e \<Rightarrow> Inr (\<not> eq_fn (fst e) (snd e) key key_len))
          else Inr False)"

partial_function (option) find_loop ::
  "'a eq_fn \<Rightarrow> 'a hset \<Rightarrow> 'a \<Rightarrow> u32 \<Rightarrow> nat \<Rightarrow> nat \<Rightarrow> nat \<Rightarrow> (fault + nat) option" where
  "find_loop eq_fn s key key_len msk start idx =
     (case probe_cond eq_fn s key key_len idx of
        Inl f \<Rightarrow> Some (Inl f)
      | Inr c \<Rightarrow>
          if c then
            (let idx' = to_hash_t (to_hash_t (idx + 1) AND msk)
             in if idx' = start then Some (Inr (capacity s))
                else find_loop eq_fn s key key_len msk start idx')
          else Some (Inr idx))"

definition set_find_slot ::
  "'a hash_fn \<Rightarrow> 'a eq_fn \<Rightarrow> 'a hset option \<Rightarrow> 'a \<Rightarrow> u32 \<Rightarrow> (fault + nat) option" where
  "set_find_slot hash_fn eq_fn setp key key_len =
     (case setp of
        None \<Rightarrow> Some (Inr (to_size_t (2 ^ 64 - 1)))
      | Some s \<Rightarrow>
          (let msk = to_size_t (capacity s + 2 ^ 64 - 1);
               idx = to_hash_t (unat (hash_fn key key_len) AND msk);
               start = idx
           in find_loop eq_fn s key key_len msk start idx))"

subsection \<open>resize\<close>

fun resize_loop ::
  "'a hash_fn \<Rightarrow> 'a eq_fn \<Rightarrow> 'a size_pair list option \<Rightarrow> u8 list option \<Rightarrow>
   'a hset \<Rightarrow> nat list \<Rightarrow> (fault + 'a hset) option" where
  "resize_loop hash_fn eq_fn old_data old_state s [] = Some (Inr s)"
| "resize_loop hash_fn eq_fn old_data old_state s (i # is) =
     (case arr_read old_state i of
        Inl f \<Rightarrow> Some (Inl f)
      | Inr st \<Rightarrow>
          if st = 1 then
            (case arr_read old_data i of
               Inl f \<Rightarrow> Some (Inl f)
             | Inr val \<Rightarrow>
                 (case set_find_slot hash_fn eq_fn (Some s) (fst val) (snd val) of
                    None \<Rightarrow> None
                  | Some (Inl f) \<Rightarrow> Some (Inl f)
                  | Some (Inr slot) \<Rightarrow>
                      if slot < 0 then resize_loop hash_fn eq_fn old_data old_state s is
                      else
                        (case arr_write (data s) slot val of
                           Inl f \<Rightarrow> Some (Inl f)
                         | Inr d' \<Rightarrow>
                             (case arr_write (state s) slot 1 of
                                Inl f \<Rightarrow> Some (Inl f)
                              | Inr st' \<Rightarrow>
                                  resize_loop hash_fn eq_fn old_data old_state
                                    (s\<lparr>data := d', state := st',
                                       ssize := to_size_t (ssize s + 1)\<rparr>) is))))
          else resize_loop hash_fn eq_fn old_data old_state s is)"

definition set_resize ::
  "allocator \<Rightarrow> ('a::zero) hash_fn \<Rightarrow> 'a eq_fn \<Rightarrow> 'a hset option \<Rightarrow> nat \<Rightarrow>
   (fault + int \<times> 'a hset option) option" where
  "set_resize al hash_fn eq_fn setp newcap =
     (case setp of
        None \<Rightarrow> Some (Inr (- 1, None))
      | Some s \<Rightarrow>
          (let old_data = data s; old_state = state s; old_cap = capacity s;
               s1 = s\<lparr>capacity := newcap,
                      data := calloc_data al newcap,
                      state := calloc_state al newcap,
                      ssize := 0\<rparr>
           in case resize_loop hash_fn eq_fn old_data old_state s1 [0..<old_cap] of
                None \<Rightarrow> None
              | Some (Inl f) \<Rightarrow> Some (Inl f)
              | Some (Inr s2) \<Rightarrow> Some (Inr (0, Some s2))))"

subsection \<open>insert, contains, remove\<close>

definition set_insert ::
  "allocator \<Rightarrow> ('a::zero) hash_fn \<Rightarrow> 'a eq_fn \<Rightarrow> 'a hset option \<Rightarrow> 'a \<Rightarrow> u32 \<Rightarrow>
   (fault + bool \<times> 'a hset option) option" where
  "set_insert al hash_fn eq_fn setp key key_len =
     (case setp of
        None \<Rightarrow> Some (Inr (False, None))
      | Some s \<Rightarrow>
          (case (if load_exceeded s
                 then set_resize al hash_fn eq_fn setp (to_size_t (capacity s * 2))
                 else Some (Inr (0, setp))) of
             None \<Rightarrow> None
           | Some (Inl f) \<Rightarrow> Some (Inl f)
           | Some (Inr (rc, set1)) \<Rightarrow>
               (case set_find_slot hash_fn eq_fn set1 key key_len of
                  None \<Rightarrow> None
                | Some (Inl f) \<Rightarrow> Some (Inl f)
                | Some (Inr idx) \<Rightarrow>
                    if idx < 0 then Some (Inr (False, set1))
                    else
                      (case set1 of
                         None \<Rightarrow> Some (Inl NullDeref)
                       | Some s1 \<Rightarrow>
                           (case arr_read (state s1) idx of
                              Inl f \<Rightarrow> Some (Inl f)
                            | Inr st \<Rightarrow>
                                if st = 1 then Some (Inr (False, set1))
                                else
                                  (case arr_write (data s1) idx (key, key_len) of
                                     Inl f \<Rightarrow> Some (Inl f)
                                   | Inr d' \<Rightarrow>
                                       (case arr_write (state s1) idx 1 of
                                          Inl f \<Rightarrow> Some (Inl f)
                                        | Inr st' \<Rightarrow>
                                            Some (Inr (True,
                                              Some (s1\<lparr>data := d', state := st',
                                                ssize := to_size_t (ssize s1 + 1)\<rparr>))))))))))"

definition set_contains ::
  "'a hash_fn \<Rightarrow> 'a eq_fn \<Rightarrow> 'a hset option \<Rightarrow> 'a \<Rightarrow> u32 \<Rightarrow> (fault + bool) option" where
  "set_contains hash_fn eq_fn setp key key_len =
     (case setp of
        None \<Rightarrow> Some (Inr False)
      | Some s \<Rightarrow>
          (case set_find_slot hash_fn eq_fn setp key key_len of
             None \<Rightarrow> None
           | Some (Inl f) \<Rightarrow> Some (Inl f)
           | Some (Inr idx) \<Rightarrow>
               if idx < 0 then Some (Inr False)
               else
                 (case arr_read (state s) idx of
                    Inl f \<Rightarrow> Some (Inl f)
                  | Inr st \<Rightarrow> Some (Inr (st = 1)))))"

definition set_remove ::
  "'a hash_fn \<Rightarrow> 'a eq_fn \<Rightarrow> 'a hset option \<Rightarrow> 'a \<Rightarrow> u32 \<Rightarrow>
   (fault + bool \<times> 'a hset option) option" where
  "set_remove hash_fn eq_fn setp key key_len =
     (case setp of
        None \<Rightarrow> Some (Inr (False, None))
      | Some s \<Rightarrow>
          (case set_find_slot hash_fn eq_fn setp key key_len of
             None \<Rightarrow> None
           | Some (Inl f) \<Rightarrow> Some (Inl f)
           | Some (Inr idx) \<Rightarrow>
               (case arr_read (state s) idx of
                  Inl f \<Rightarrow> Some (Inl f)
                | Inr st \<Rightarrow>
                    if st \<noteq> 1 then Some (Inr (False, setp))
                    else
                      (case arr_write (state s) idx 2 of
                         Inl f \<Rightarrow> Some (Inl f)
                       | Inr st' \<Rightarrow>
                           Some (Inr (True,
                             Some (s\<lparr>state := st',
                               ssize := to_size_t (ssize s + 2 ^ 64 - 1)\<rparr>)))))))"

subsection \<open>The sample instantiation of example.c\<close>

definition hashset_hash_int32 :: "u32 \<Rightarrow> u32 \<Rightarrow> u32" where
  "hashset_hash_int32 a ignored =
     (let a = (a XOR 61) XOR (drop_bit 16 a);
          a = a + push_bit 3 a;
          a = a XOR (drop_bit 4 a);
          a = a * 0x27d4eb2d;
          a = a XOR (drop_bit 15 a)
      in a)"

definition eq_u32 :: "u32 \<Rightarrow> u32 \<Rightarrow> u32 \<Rightarrow> u32 \<Rightarrow> bool" where
  "eq_u32 a a_size b b_size = (a = b)"


subsection \<open>States of the sample instantiation\<close>

text \<open>
  The set after \<^verbatim>\<open>u32_set_init\<close>, and the sets that the calls \<^verbatim>\<open>insert 42\<close>,
  \<^verbatim>\<open>insert 25\<close>, \<^verbatim>\<open>remove 42\<close>, \<^verbatim>\<open>insert 25\<close> produce one after the other. The
  keys 42 and 25 both hash to slot 9 of a table of 16 slots.
\<close>

definition ex_s0 :: "u32 hset" where
  "ex_s0 = \<lparr>data = Some (replicate 16 (0, 0)), state = Some (replicate 16 0),
            ssize = 0, capacity = 16\<rparr>"

definition ex_s1 :: "u32 hset" where
  "ex_s1 = \<lparr>data = Some ((replicate 16 (0, 0))[9 := (42, 0)]),
            state = Some ((replicate 16 0)[9 := 1]),
            ssize = 1, capacity = 16\<rparr>"

definition ex_s2 :: "u32 hset" where
  "ex_s2 = \<lparr>data = Some ((replicate 16 (0, 0))[9 := (42, 0), 10 := (25, 0)]),
            state = Some ((replicate 16 0)[9 := 1, 10 := 1]),
            ssize = 2, capacity = 16\<rparr>"

definition ex_s3 :: "u32 hset" where
  "ex_s3 = \<lparr>data = Some ((replicate 16 (0, 0))[9 := (42, 0), 10 := (25, 0)]),
            state = Some ((replicate 16 0)[9 := 1, 10 := 1, 9 := 2]),
            ssize = 1, capacity = 16\<rparr>"

definition ex_s4 :: "u32 hset" where
  "ex_s4 = \<lparr>data = Some ((replicate 16 (0, 0))[9 := (42, 0), 10 := (25, 0), 9 := (25, 0)]),
            state = Some ((replicate 16 0)[9 := 1, 10 := 1, 9 := 2, 9 := 1]),
            ssize = 2, capacity = 16\<rparr>"

text \<open>
  A table of one slot that holds 42: the set after \<^verbatim>\<open>init\<close>, \<^verbatim>\<open>insert 42\<close> and
  \<^verbatim>\<open>resize\<close> to capacity 1. Every slot of it is occupied.
\<close>

definition ex_full :: "u32 hset" where
  "ex_full = \<lparr>data = Some [(42, 0)], state = Some [1], ssize = 1, capacity = 1\<rparr>"

text \<open>
  A garbage record for \<^verbatim>\<open>init\<close> to overwrite, eleven more keys, the set that the
  inserts of these keys produce from the set with the tombstone above (12 entries and one
  tombstone in 16 slots, so that the next \<^verbatim>\<open>insert\<close> grows the table), and 13 keys for
  a fresh set.
\<close>

definition ex_keys :: "u32 size_pair list" where
  "ex_keys = [(1, 0), (2, 0), (3, 0), (4, 0), (5, 0), (6, 0), (7, 0), (8, 0), (9, 0),
              (10, 0), (11, 0)]"

definition ex_s12 :: "u32 hset" where
  "ex_s12 =
     \<lparr>data = Some ((replicate 16 (0, 0))
        [9 := (42, 0), 10 := (25, 0), 13 := (1, 0), 5 := (2, 0), 14 := (3, 0),
         12 := (4, 0), 15 := (5, 0), 2 := (6, 0), 11 := (7, 0), 7 := (8, 0), 0 := (9, 0),
         4 := (10, 0), 6 := (11, 0)]),
      state = Some ((replicate 16 0)
        [9 := 1, 10 := 1, 9 := 2, 13 := 1, 5 := 1, 14 := 1, 12 := 1, 15 := 1, 2 := 1,
         11 := 1, 7 := 1, 0 := 1, 4 := 1, 6 := 1]),
      ssize = 12, capacity = 16\<rparr>"

definition ex_uninit :: "u32 hset" where
  "ex_uninit = \<lparr>data = None, state = None, ssize = 7, capacity = 3\<rparr>"

definition ex_keys13 :: "u32 size_pair list" where
  "ex_keys13 = [(1, 0), (2, 0), (3, 0), (4, 0), (5, 0), (6, 0), (7, 0), (8, 0), (9, 0),
                (10, 0), (11, 0), (12, 0), (13, 0)]"

text \<open>
  The set after \<^verbatim>\<open>insert 42\<close>, \<^verbatim>\<open>insert 25\<close>, \<^verbatim>\<open>remove 42\<close>, \<^verbatim>\<open>insert 25\<close>,
  \<^verbatim>\<open>remove 25\<close>: slot 9 is the tombstone of the removed 25, slot 10 still holds the
  first 25. And the set that the inserts of the eleven keys above produce from it.
\<close>

definition ex_s5 :: "u32 hset" where
  "ex_s5 = \<lparr>data = Some ((replicate 16 (0, 0))[9 := (42, 0), 10 := (25, 0), 9 := (25, 0)]),
            state = Some ((replicate 16 0)[9 := 1, 10 := 1, 9 := 2, 9 := 1, 9 := 2]),
            ssize = 1, capacity = 16\<rparr>"

definition ex_t12 :: "u32 hset" where
  "ex_t12 =
     \<lparr>data = Some ((replicate 16 (0, 0))
        [9 := (42, 0), 10 := (25, 0), 9 := (25, 0), 13 := (1, 0), 5 := (2, 0), 14 := (3, 0), 12 := (4, 0), 15 := (5, 0), 2 := (6, 0), 11 := (7, 0), 7 := (8, 0), 0 := (9, 0), 4 := (10, 0), 6 := (11, 0)]),
      state = Some ((replicate 16 0)
        [9 := 1, 10 := 1, 9 := 2, 9 := 1, 9 := 2, 13 := 1, 5 := 1, 14 := 1, 12 := 1, 15 := 1, 2 := 1, 11 := 1, 7 := 1, 0 := 1, 4 := 1, 6 := 1]),
      ssize = 12, capacity = 16\<rparr>"

section \<open>Notions for the statements and the proofs\<close>

text \<open>
  A table is well formed when both arrays are allocated with as many elements as the
  capacity says, and the capacity is a power of two of at most \<open>2 ^ 32\<close>: then the
  32-bit index of the probe reaches every slot.
\<close>

definition wf_table :: "'a hset \<Rightarrow> bool" where
  "wf_table s =
     (case data s of
        None \<Rightarrow> False
      | Some d \<Rightarrow>
          (case state s of
             None \<Rightarrow> False
           | Some st \<Rightarrow>
               length d = capacity s \<and> length st = capacity s \<and>
               (\<exists>n \<le> 32. capacity s = 2 ^ n)))"

text \<open>
  The slots in the order in which the probe visits them, the slots where the loop of
  \<^verbatim>\<open>find_slot\<close> stops for a key, and the first of them in that order, or the capacity
  when there is none: this is what \<^verbatim>\<open>find_slot\<close> returns on a well-formed table
  (lemma \<open>find_slot_char\<close>).
\<close>

definition probe_seq :: "nat \<Rightarrow> nat \<Rightarrow> nat list" where
  "probe_seq c start = map (\<lambda>i. (start + i) mod c) [0..<c]"

definition stops :: "'a eq_fn \<Rightarrow> 'a hset \<Rightarrow> 'a \<Rightarrow> u32 \<Rightarrow> nat \<Rightarrow> bool" where
  "stops eq_fn s key key_len j = (probe_cond eq_fn s key key_len j = Inr False)"

definition slot_of :: "'a hash_fn \<Rightarrow> 'a eq_fn \<Rightarrow> 'a hset \<Rightarrow> 'a \<Rightarrow> u32 \<Rightarrow> nat" where
  "slot_of hash_fn eq_fn s key key_len =
     (case find (stops eq_fn s key key_len)
             (probe_seq (capacity s) (unat (hash_fn key key_len) mod capacity s)) of
        None \<Rightarrow> capacity s
      | Some j \<Rightarrow> j)"

text \<open>
  A slot is occupied when its state is 1; an entry is live in a slot when the slot is
  occupied and holds it; \<open>occ\<close> counts the occupied slots.
\<close>

definition occupied :: "'a hset \<Rightarrow> nat \<Rightarrow> bool" where
  "occupied s j = (arr_read (state s) j = Inr 1)"

definition live :: "'a hset \<Rightarrow> nat \<Rightarrow> 'a size_pair \<Rightarrow> bool" where
  "live s j v = (arr_read (state s) j = Inr 1 \<and> arr_read (data s) j = Inr v)"

definition occ :: "'a hset \<Rightarrow> nat" where
  "occ s = (case state s of None \<Rightarrow> 0 | Some st \<Rightarrow> length (filter (\<lambda>x. x = 1) st))"

text \<open>
  The set after the three assignments that end \<^verbatim>\<open>insert\<close> and the body of the loop of
  \<^verbatim>\<open>resize\<close>, the set after the two assignments that end \<^verbatim>\<open>remove\<close>, and one
  round of the loop of \<^verbatim>\<open>resize\<close> for an entry of the old table.
\<close>

definition put_entry :: "'a hset \<Rightarrow> nat \<Rightarrow> 'a size_pair \<Rightarrow> 'a hset" where
  "put_entry s j v =
     s\<lparr>data := map_option (\<lambda>d. d[j := v]) (data s),
       state := map_option (\<lambda>st. st[j := 1]) (state s),
       ssize := to_size_t (ssize s + 1)\<rparr>"


definition reinsert :: "'a hash_fn \<Rightarrow> 'a eq_fn \<Rightarrow> 'a hset \<Rightarrow> 'a size_pair \<Rightarrow> 'a hset" where
  "reinsert hash_fn eq_fn s v = put_entry s (slot_of hash_fn eq_fn s (fst v) (snd v)) v"

text \<open>
  The zeroed table that \<^verbatim>\<open>init\<close> and \<^verbatim>\<open>resize\<close> allocate, the entries of the
  occupied slots in the order of the slots, and the table in which \<^verbatim>\<open>insert\<close> probes:
  the table itself, or the doubled table with the live entries inserted again when the
  load test fires.
\<close>

definition fresh_table :: "nat \<Rightarrow> ('a::zero) hset" where
  "fresh_table n =
     \<lparr>data = Some (replicate n (0, 0)), state = Some (replicate n 0), ssize = 0, capacity = n\<rparr>"

definition live_entries :: "'a hset \<Rightarrow> 'a size_pair list" where
  "live_entries s =
     (case data s of
        None \<Rightarrow> []
      | Some d \<Rightarrow>
          (case state s of
             None \<Rightarrow> []
           | Some st \<Rightarrow> map (\<lambda>i. d ! i) (filter (\<lambda>i. st ! i = 1) [0..<capacity s])))"

definition grown :: "('a::zero) hash_fn \<Rightarrow> 'a eq_fn \<Rightarrow> 'a hset \<Rightarrow> 'a hset" where
  "grown hash_fn eq_fn s =
     (if load_exceeded s
      then foldl (reinsert hash_fn eq_fn) (fresh_table (2 * capacity s)) (live_entries s)
      else s)"

text \<open>
  The invariant of the states that \<^verbatim>\<open>init\<close>, \<^verbatim>\<open>insert\<close> and \<^verbatim>\<open>remove\<close> produce:
  the size field is at least the number of occupied slots and at most one more than 0.7
  times the capacity, so that a slot is always free. The states reachable from
  \<^verbatim>\<open>init\<close> by inserts and removes that return a result, with allocations that succeed.
\<close>

definition hs_inv :: "'a hset \<Rightarrow> bool" where
  "hs_inv s \<longleftrightarrow>
     wf_table s \<and> 16 \<le> capacity s \<and> occ s \<le> ssize s \<and> 10 * ssize s \<le> 7 * capacity s + 10"

inductive reachable :: "('a::zero) hash_fn \<Rightarrow> 'a eq_fn \<Rightarrow> 'a hset \<Rightarrow> bool"
  for hash_fn :: "'a hash_fn" and eq_fn :: "'a eq_fn" where
  reach_init: "set_init calloc_ok (Some u) = (0, Some s) \<Longrightarrow> reachable hash_fn eq_fn s"
| reach_insert:
    "reachable hash_fn eq_fn s \<Longrightarrow>
     set_insert calloc_ok hash_fn eq_fn (Some s) key key_len = Some (Inr (b, Some s')) \<Longrightarrow>
     reachable hash_fn eq_fn s'"
| reach_remove:
    "reachable hash_fn eq_fn s \<Longrightarrow>
     set_remove hash_fn eq_fn (Some s) key key_len = Some (Inr (b, Some s')) \<Longrightarrow>
     reachable hash_fn eq_fn s'"

text \<open>
  The equality function is an equivalence on entries; a table has no tombstone when
  every slot is empty or occupied; the keys of a list are pairwise different under the
  equality function, in either order.
\<close>

definition eq_equiv :: "'a eq_fn \<Rightarrow> bool" where
  "eq_equiv eq_fn \<longleftrightarrow>
     (\<forall>a al. eq_fn a al a al) \<and>
     (\<forall>a al b bl. eq_fn a al b bl \<longrightarrow> eq_fn b bl a al) \<and>
     (\<forall>a al b bl c cl. eq_fn a al b bl \<longrightarrow> eq_fn b bl c cl \<longrightarrow> eq_fn a al c cl)"

definition no_tombstone :: "'a hset \<Rightarrow> bool" where
  "no_tombstone s \<longleftrightarrow>
     (\<forall>j < capacity s. arr_read (state s) j = Inr 0 \<or> arr_read (state s) j = Inr 1)"

fun distinct_keys :: "'a eq_fn \<Rightarrow> 'a size_pair list \<Rightarrow> bool" where
  "distinct_keys eq_fn [] = True"
| "distinct_keys eq_fn (k # ks) =
     ((\<forall>x \<in> set ks. \<not> eq_fn (fst k) (snd k) (fst x) (snd x) \<and>
                     \<not> eq_fn (fst x) (snd x) (fst k) (snd k)) \<and>
      distinct_keys eq_fn ks)"

text \<open>
  A client that inserts the keys of a list one after the other, with allocations that
  succeed. For every call it records whether the load test of \<^verbatim>\<open>insert\<close> fired on
  entry, what the call returned, and the set afterwards; it gives \<open>None\<close> when a call
  does not return a result.
\<close>

fun insert_seq ::
  "('a::zero) hash_fn \<Rightarrow> 'a eq_fn \<Rightarrow> 'a hset \<Rightarrow> 'a size_pair list \<Rightarrow>
   (bool \<times> bool \<times> 'a hset) list option" where
  "insert_seq hash_fn eq_fn s [] = Some []"
| "insert_seq hash_fn eq_fn s (k # ks) =
     (case set_insert calloc_ok hash_fn eq_fn (Some s) (fst k) (snd k) of
        Some (Inr (b, Some s')) \<Rightarrow>
          (case insert_seq hash_fn eq_fn s' ks of
             None \<Rightarrow> None
           | Some rs \<Rightarrow> Some ((load_exceeded s, b, s') # rs))
      | _ \<Rightarrow> None)"

section \<open>Evaluating the operations\<close>

lemma find_loop_stop:
  "probe_cond eq_fn s key key_len idx = Inr False \<Longrightarrow>
   find_loop eq_fn s key key_len msk start idx = Some (Inr idx)"
  by (subst find_loop.simps) simp

lemma find_loop_fault:
  "probe_cond eq_fn s key key_len idx = Inl f \<Longrightarrow>
   find_loop eq_fn s key key_len msk start idx = Some (Inl f)"
  by (subst find_loop.simps) simp

lemma find_loop_step:
  "probe_cond eq_fn s key key_len idx = Inr True \<Longrightarrow>
   find_loop eq_fn s key key_len msk start idx =
     (if to_hash_t (to_hash_t (idx + 1) AND msk) = start then Some (Inr (capacity s))
      else find_loop eq_fn s key key_len msk start (to_hash_t (to_hash_t (idx + 1) AND msk)))"
  by (subst find_loop.simps) (simp add: Let_def)

lemmas hs_eval =
  numeral_2_eq_2 [symmetric] set_insert_def set_remove_def set_contains_def set_find_slot_def set_resize_def
  find_loop_stop find_loop_fault find_loop_step probe_cond_def arr_read_def arr_write_def
  load_exceeded_def to_size_t_def to_hash_t_def calloc_data_def calloc_state_def
  calloc_ok_def hashset_hash_int32_def eq_u32_def Let_def

lemma set_init_ok: "set_init calloc_ok (Some (u :: u32 hset)) = (0, Some ex_s0)"
  by (cases u)
    (simp add: set_init_def ex_s0_def calloc_data_def calloc_state_def calloc_ok_def
      HASHSET_INITIAL_CAPACITY_def)

lemma ex_insert_42:
  "set_insert calloc_ok hashset_hash_int32 eq_u32 (Some ex_s0) 42 0 =
     Some (Inr (True, Some ex_s1))"
  by (simp add: hs_eval ex_s0_def ex_s1_def)

lemma ex_insert_25:
  "set_insert calloc_ok hashset_hash_int32 eq_u32 (Some ex_s1) 25 0 =
     Some (Inr (True, Some ex_s2))"
  by (simp add: hs_eval ex_s1_def ex_s2_def)

lemma ex_remove_42:
  "set_remove hashset_hash_int32 eq_u32 (Some ex_s2) 42 0 = Some (Inr (True, Some ex_s3))"
  by (simp add: hs_eval ex_s2_def ex_s3_def)

lemma ex_insert_25_again:
  "set_insert calloc_ok hashset_hash_int32 eq_u32 (Some ex_s3) 25 0 =
     Some (Inr (True, Some ex_s4))"
  by (simp add: hs_eval ex_s3_def ex_s4_def)


lemma upt_16: "[0..<16] = [0, 1, 2, 3, 4, 5, 6, 7, 8, 9, 10, 11, 12, 13, 14, 15]"
  by (simp add: upt_rec)

lemma ex_resize_1:
  "set_resize calloc_ok hashset_hash_int32 eq_u32 (Some ex_s1) 1 = Some (Inr (0, Some ex_full))"
  by (simp add: hs_eval ex_s1_def ex_full_def upt_16)

lemma and_15_less: "(n::nat) AND 15 < 16"
proof -
  have "n AND 15 = n mod 2 ^ 4"
    using take_bit_eq_mask [of 4 n] by (simp add: take_bit_eq_mod mask_eq_exp_minus_1)
  then show ?thesis by simp
qed

text \<open>
  After \<^verbatim>\<open>insert 42\<close>, \<^verbatim>\<open>insert 25\<close>, \<^verbatim>\<open>remove 42\<close> no key at all is found: the
  probe for 25 starts at slot 9, which holds the tombstone of 42, and stops there.
\<close>

lemma ex_s3_contains_nothing:
  "set_contains hashset_hash_int32 eq_u32 (Some ex_s3) k l = Some (Inr False)"
proof -
  define n where "n = unat (hashset_hash_int32 k l) AND 15"
  have n: "n < 16" unfolding n_def by (rule and_15_less)
  have k: "k \<noteq> 25" if "n = 10"
  proof
    assume "k = 25"
    then have "n = 9" unfolding n_def by (simp add: hashset_hash_int32_def Let_def)
    with that show False by simp
  qed
  have cap: "capacity ex_s3 = 16" by (simp add: ex_s3_def)
  have fs: "set_find_slot hashset_hash_int32 eq_u32 (Some ex_s3) k l =
      find_loop eq_u32 ex_s3 k l 15 n n"
    using n by (simp add: set_find_slot_def Let_def to_size_t_def to_hash_t_def n_def cap)
  have fl: "find_loop eq_u32 ex_s3 k l 15 n n = Some (Inr (if n = 10 then 11 else n))"
  proof (cases "n = 10")
    case True
    with k show ?thesis by (simp add: hs_eval ex_s3_def)
  next
    case False
    with n have "probe_cond eq_u32 ex_s3 k l n = Inr False"
      by (simp add: probe_cond_def arr_read_def ex_s3_def nth_list_update)
    with False show ?thesis by (simp add: find_loop_stop)
  qed
  show ?thesis
    unfolding set_contains_def fs fl using n
    by (simp add: arr_read_def ex_s3_def nth_list_update)
qed

section \<open>The probe on a well-formed table\<close>

lemma and_pow2_minus_1: "(x::nat) AND (2 ^ n - 1) = x mod 2 ^ n"
  using take_bit_eq_mask [of n x] by (simp add: take_bit_eq_mod mask_eq_exp_minus_1)

lemma wrap_minus_1:
  assumes "0 < a" "a \<le> K"
  shows "(a + K - 1) mod K = a - (1::nat)"
proof -
  have e: "a + K - 1 = (a - 1) + K" using assms by arith
  have lt: "a - 1 < K" using assms by arith
  have "(a + K - 1) mod K = ((a - 1) + K) mod K" by (simp only: e)
  also have "\<dots> = (a - 1) mod K" by (rule mod_add_self2)
  also have "\<dots> = a - 1" using lt by (rule mod_less)
  finally show ?thesis .
qed

lemma msk_pow2:
  assumes "n \<le> 32"
  shows "to_size_t (2 ^ n + 2 ^ 64 - 1) = 2 ^ n - 1"
proof -
  have "(2::nat) ^ n \<le> 2 ^ 64" using assms power_increasing [of n 64 "2::nat"] by simp
  then show ?thesis unfolding to_size_t_def by (intro wrap_minus_1) simp_all
qed

lemma next_idx:
  assumes "n \<le> 32"
  shows "to_hash_t (to_hash_t (idx + 1) AND to_size_t (2 ^ n + 2 ^ 64 - 1)) = (idx + 1) mod 2 ^ n"
proof -
  have dvd: "(2::nat) ^ n dvd 2 ^ 32" using assms by (rule le_imp_power_dvd)
  have le: "(2::nat) ^ n \<le> 2 ^ 32" using assms power_increasing [of n 32 "2::nat"] by simp
  have "to_hash_t (idx + 1) AND to_size_t (2 ^ n + 2 ^ 64 - 1) = ((idx + 1) mod 2 ^ 32) mod 2 ^ n"
    by (simp only: msk_pow2 [OF assms] and_pow2_minus_1 to_hash_t_def)
  also have "\<dots> = (idx + 1) mod 2 ^ n"
    using dvd by (rule mod_mod_cancel)
  finally have eq: "to_hash_t (idx + 1) AND to_size_t (2 ^ n + 2 ^ 64 - 1) = (idx + 1) mod 2 ^ n" .
  have "(idx + 1) mod 2 ^ n < (2::nat) ^ n" by simp
  with le have "(idx + 1) mod 2 ^ n < (2::nat) ^ 32" by linarith
  then show ?thesis unfolding eq by (simp add: to_hash_t_def)
qed

lemma first_idx:
  assumes "n \<le> 32"
  shows "to_hash_t (unat (h :: u32) AND to_size_t (2 ^ n + 2 ^ 64 - 1)) = unat h mod 2 ^ n"
proof -
  have le: "(2::nat) ^ n \<le> 2 ^ 32" using assms power_increasing [of n 32 "2::nat"] by simp
  have eq: "unat h AND to_size_t (2 ^ n + 2 ^ 64 - 1) = unat h mod 2 ^ n"
    by (simp only: msk_pow2 [OF assms] and_pow2_minus_1)
  have "unat h mod 2 ^ n < (2::nat) ^ n" by simp
  with le have "unat h mod 2 ^ n < (2::nat) ^ 32" by linarith
  then show ?thesis unfolding eq by (simp add: to_hash_t_def)
qed

lemma cycle_back:
  assumes "start < c" "0 < j" "j \<le> c" "(start + j) mod c = start"
  shows "j = (c::nat)"
proof -
  have "start mod c = start" using assms(1) by simp
  with assms(4) have "(start + j) mod c = start mod c" by simp
  then have "c dvd (start + j) - start"
    by (subst (asm) mod_eq_dvd_iff_nat) simp_all
  then have "c dvd j" by simp
  from dvd_imp_le [OF this assms(2)] assms(3) show ?thesis by simp
qed

lemma wf_tableD:
  assumes "wf_table s"
  obtains d st n where "data s = Some d" "state s = Some st" "length d = capacity s"
    "length st = capacity s" "capacity s = 2 ^ n" "n \<le> 32"
  using assms by (auto simp: wf_table_def split: option.splits)

lemma wf_capacity_pos: "wf_table s \<Longrightarrow> 0 < capacity s"
  by (erule wf_tableD) simp

lemma probe_cond_wf:
  assumes "wf_table s" "j < capacity s"
  shows "probe_cond eq_fn s key key_len j = Inr (\<not> stops eq_fn s key key_len j)"
  using assms by (auto elim!: wf_tableD simp: stops_def probe_cond_def arr_read_def)

lemma find_loop_char:
  assumes wf: "wf_table s" and start: "start < capacity s" and m: "m < capacity s"
  shows "find_loop eq_fn s key key_len (to_size_t (capacity s + 2 ^ 64 - 1)) start
           ((start + m) mod capacity s) =
         Some (Inr (case find (stops eq_fn s key key_len)
                           (map (\<lambda>i. (start + i) mod capacity s) [m..<capacity s]) of
                      None \<Rightarrow> capacity s | Some j \<Rightarrow> j))"
  using m
proof (induction "capacity s - m" arbitrary: m)
  case 0
  then show ?case by simp
next
  case (Suc x)
  let ?c = "capacity s"
  let ?idx = "(start + m) mod ?c"
  from wf obtain n where n: "?c = 2 ^ n" "n \<le> 32" by (auto elim: wf_tableD)
  have idx: "?idx < ?c" using Suc.prems by simp
  have upt: "[m..<?c] = m # [Suc m..<?c]" using Suc.prems by (simp add: upt_conv_Cons)
  show ?case
  proof (cases "stops eq_fn s key key_len ?idx")
    case True
    then have "probe_cond eq_fn s key key_len ?idx = Inr False"
      using probe_cond_wf [OF wf idx] by simp
    then show ?thesis using True by (simp add: find_loop_stop upt)
  next
    case False
    then have pc: "probe_cond eq_fn s key key_len ?idx = Inr True"
      using probe_cond_wf [OF wf idx] by simp
    have "to_hash_t (to_hash_t (?idx + 1) AND to_size_t (?c + 2 ^ 64 - 1)) = (?idx + 1) mod ?c"
      using next_idx [OF n(2), of ?idx] by (simp only: n(1) [symmetric])
    also have "\<dots> = (start + Suc m) mod ?c"
      by (simp add: mod_Suc_eq)
    finally have nxt: "to_hash_t (to_hash_t (?idx + 1) AND to_size_t (?c + 2 ^ 64 - 1)) =
        (start + Suc m) mod ?c" .
    have step: "find_loop eq_fn s key key_len (to_size_t (?c + 2 ^ 64 - 1)) start ?idx =
        (if (start + Suc m) mod ?c = start then Some (Inr ?c)
         else find_loop eq_fn s key key_len (to_size_t (?c + 2 ^ 64 - 1)) start
                ((start + Suc m) mod ?c))"
      using find_loop_step [OF pc, of "to_size_t (?c + 2 ^ 64 - 1)" start] unfolding nxt .
    have fnd: "find (stops eq_fn s key key_len) (map (\<lambda>i. (start + i) mod ?c) [m..<?c]) =
        find (stops eq_fn s key key_len) (map (\<lambda>i. (start + i) mod ?c) [Suc m..<?c])"
      unfolding upt using False by simp
    show ?thesis
    proof (cases "Suc m = ?c")
      case True
      then have wrp: "(start + Suc m) mod ?c = start" using start by simp
      have e: "[Suc m..<?c] = []" using True by simp
      show ?thesis
        unfolding step fnd e using wrp by simp
    next
      case ne: False
      then have lt: "Suc m < ?c" using Suc.prems by simp
      have "(start + Suc m) mod ?c \<noteq> start"
        using cycle_back [OF start _ _, of "Suc m"] lt by auto
      moreover have "x = ?c - Suc m" using Suc.hyps(2) by simp
      ultimately show ?thesis
        unfolding step fnd using Suc.hyps(1) [of "Suc m"] lt by simp
    qed
  qed
qed


lemma find_slot_char:
  assumes wf: "wf_table s"
  shows "set_find_slot hash_fn eq_fn (Some s) key key_len =
    Some (Inr (slot_of hash_fn eq_fn s key key_len))"
proof -
  let ?c = "capacity s"
  let ?start = "unat (hash_fn key key_len) mod ?c"
  from wf obtain n where n: "?c = 2 ^ n" "n \<le> 32" by (auto elim: wf_tableD)
  have pos: "0 < ?c" using wf by (rule wf_capacity_pos)
  then have start: "?start < ?c" by simp
  have idx: "to_hash_t (unat (hash_fn key key_len) AND to_size_t (?c + 2 ^ 64 - 1)) = ?start"
    using first_idx [OF n(2), of "hash_fn key key_len"] by (simp only: n(1) [symmetric])
  have "find_loop eq_fn s key key_len (to_size_t (?c + 2 ^ 64 - 1)) ?start ?start =
      Some (Inr (slot_of hash_fn eq_fn s key key_len))"
    using find_loop_char [OF wf start pos, of eq_fn key key_len] start
    by (simp add: slot_of_def probe_seq_def)
  then show ?thesis
    by (simp only: set_find_slot_def Let_def idx option.case)
qed

lemma set_probe_seq:
  assumes "start < c"
  shows "set (probe_seq c start) = {0..<c}"
proof
  show "set (probe_seq c start) \<subseteq> {0..<c}"
    using assms by (auto simp: probe_seq_def)
  show "{0..<c} \<subseteq> set (probe_seq c start)"
  proof
    fix j assume "j \<in> {0..<c}"
    then have j: "j < c" by simp
    let ?i = "(j + c - start) mod c"
    have "(start + ?i) mod c = (start + (j + c - start)) mod c"
      by (simp add: mod_add_right_eq)
    also have "start + (j + c - start) = j + c" using assms by simp
    also have "(j + c) mod c = j" using j by simp
    finally have "(start + ?i) mod c = j" .
    moreover have "?i < c" using j by simp
    ultimately show "j \<in> set (probe_seq c start)"
      by (force simp: probe_seq_def)
  qed
qed

lemma slot_of_le: "wf_table s \<Longrightarrow> slot_of hash_fn eq_fn s key key_len \<le> capacity s"
proof -
  assume wf: "wf_table s"
  let ?c = "capacity s"
  have start: "unat (hash_fn key key_len) mod ?c < ?c"
    using wf_capacity_pos [OF wf] by simp
  show ?thesis
  proof (cases "find (stops eq_fn s key key_len) (probe_seq ?c (unat (hash_fn key key_len) mod ?c))")
    case None
    then show ?thesis by (simp add: slot_of_def)
  next
    case (Some j)
    then have "j \<in> set (probe_seq ?c (unat (hash_fn key key_len) mod ?c))"
      by (auto simp: find_Some_iff)
    then have "j < ?c" using set_probe_seq [OF start] by simp
    with Some show ?thesis by (simp add: slot_of_def)
  qed
qed

lemma slot_of_stops:
  assumes wf: "wf_table s" and ex: "j < capacity s" "stops eq_fn s key key_len j"
  shows "slot_of hash_fn eq_fn s key key_len < capacity s \<and>
         stops eq_fn s key key_len (slot_of hash_fn eq_fn s key key_len)"
proof -
  let ?c = "capacity s"
  let ?xs = "probe_seq ?c (unat (hash_fn key key_len) mod ?c)"
  have start: "unat (hash_fn key key_len) mod ?c < ?c"
    using wf_capacity_pos [OF wf] by simp
  have "j \<in> set ?xs" using set_probe_seq [OF start] ex(1) by simp
  with ex(2) have "find (stops eq_fn s key key_len) ?xs \<noteq> None"
    by (auto simp: find_None_iff)
  then obtain r where r: "find (stops eq_fn s key key_len) ?xs = Some r" by auto
  then have "r \<in> set ?xs" "stops eq_fn s key key_len r"
    by (auto simp: find_Some_iff)
  then have "r < ?c" "stops eq_fn s key key_len r"
    using set_probe_seq [OF start] by simp_all
  with r show ?thesis by (simp add: slot_of_def)
qed

lemma slot_of_full:
  assumes wf: "wf_table s" and none: "\<And>j. j < capacity s \<Longrightarrow> \<not> stops eq_fn s key key_len j"
  shows "slot_of hash_fn eq_fn s key key_len = capacity s"
proof -
  let ?c = "capacity s"
  let ?xs = "probe_seq ?c (unat (hash_fn key key_len) mod ?c)"
  have start: "unat (hash_fn key key_len) mod ?c < ?c"
    using wf_capacity_pos [OF wf] by simp
  have "find (stops eq_fn s key key_len) ?xs = None"
    using none set_probe_seq [OF start] by (auto simp: find_None_iff)
  then show ?thesis by (simp add: slot_of_def)
qed

text \<open>
  The probe for a key ends in the same slot in two tables of the same capacity when
  the slot where it ends in the first table stops it in the second as well, and the
  second table stops it nowhere else than the first.
\<close>

lemma slot_of_stable:
  assumes cap: "capacity s' = capacity s"
    and wf: "wf_table s"
    and lt: "slot_of hash_fn eq_fn s key key_len < capacity s"
    and at: "stops eq_fn s' key key_len (slot_of hash_fn eq_fn s key key_len)"
    and sub: "\<And>j. j < capacity s \<Longrightarrow> stops eq_fn s' key key_len j \<Longrightarrow> stops eq_fn s key key_len j"
  shows "slot_of hash_fn eq_fn s' key key_len = slot_of hash_fn eq_fn s key key_len"
proof -
  let ?c = "capacity s"
  let ?xs = "probe_seq ?c (unat (hash_fn key key_len) mod ?c)"
  have start: "unat (hash_fn key key_len) mod ?c < ?c"
    using wf_capacity_pos [OF wf] by simp
  have mem: "\<And>i. i < length ?xs \<Longrightarrow> ?xs ! i < ?c"
    using set_probe_seq [OF start] nth_mem by fastforce
  obtain r where r: "find (stops eq_fn s key key_len) ?xs = Some r"
    using lt by (auto simp: slot_of_def split: option.splits)
  then have sl: "slot_of hash_fn eq_fn s key key_len = r" by (simp add: slot_of_def)
  from r obtain i where i: "i < length ?xs" "r = ?xs ! i"
    "\<And>j. j < i \<Longrightarrow> \<not> stops eq_fn s key key_len (?xs ! j)"
    by (auto simp: find_Some_iff)
  have "find (stops eq_fn s' key key_len) ?xs = Some r"
    unfolding find_Some_iff
  proof (intro exI [of _ i] conjI allI impI)
    show "i < length ?xs" by (rule i(1))
    show "stops eq_fn s' key key_len (?xs ! i)" using at sl i(2) by simp
    show "r = ?xs ! i" by (rule i(2))
    fix j assume j: "j < i"
    then have "j < length ?xs" using i(1) by simp
    then have "?xs ! j < ?c" by (rule mem)
    with i(3) [OF j] sub show "\<not> stops eq_fn s' key key_len (?xs ! j)" by blast
  qed
  then have "slot_of hash_fn eq_fn s' key key_len = r" by (simp add: slot_of_def cap)
  with sl show ?thesis by simp
qed


subsection \<open>Slots of a well-formed table\<close>

lemma occupied_live: "wf_table s \<Longrightarrow> j < capacity s \<Longrightarrow> occupied s j \<longleftrightarrow> (\<exists>v. live s j v)"
  by (auto elim!: wf_tableD simp: occupied_def live_def arr_read_def)

lemma live_occupied: "live s j v \<Longrightarrow> occupied s j"
  by (simp add: live_def occupied_def)

lemma live_unique: "live s j v \<Longrightarrow> live s j w \<Longrightarrow> v = w"
  by (simp add: live_def)

lemma stops_iff:
  assumes "wf_table s" "j < capacity s"
  shows "stops eq_fn s key key_len j \<longleftrightarrow>
    (\<not> occupied s j \<or> (\<exists>v. live s j v \<and> eq_fn (fst v) (snd v) key key_len))"
proof -
  from assms obtain d st where "data s = Some d" "state s = Some st" "j < length d" "j < length st"
    by (auto elim: wf_tableD)
  then show ?thesis
    by (cases "d ! j") (simp add: stops_def probe_cond_def occupied_def live_def arr_read_def)
qed

lemma length_filter_update:
  "j < length xs \<Longrightarrow>
   length (filter P (xs[j := v])) + (if P (xs ! j) then 1 else 0) =
   length (filter P xs) + (if P v then 1 else 0)"
proof (induction xs arbitrary: j)
  case Nil
  then show ?case by simp
next
  case (Cons x xs)
  then show ?case by (cases j) auto
qed

lemma occ_le_capacity: "wf_table s \<Longrightarrow> occ s \<le> capacity s"
  by (erule wf_tableD) (simp add: occ_def, metis length_filter_le)

lemma free_slot:
  assumes wf: "wf_table s" and lt: "occ s < capacity s"
  obtains j where "j < capacity s" "\<not> occupied s j"
proof -
  from wf obtain d st where st: "state s = Some st" "length st = capacity s"
    by (auto elim: wf_tableD)
  have "length (filter (\<lambda>x. x = 1) st) < length st" using lt st by (simp add: occ_def)
  then have "filter (\<lambda>x. x = 1) st \<noteq> st" by auto
  then obtain x where "x \<in> set st" "x \<noteq> 1" by (auto simp: filter_id_conv)
  then obtain j where "j < length st" "st ! j \<noteq> 1" by (auto simp: in_set_conv_nth)
  then have "j < capacity s" "\<not> occupied s j"
    using st by (simp_all add: occupied_def arr_read_def)
  then show ?thesis by (rule that)
qed

lemma slot_of_free:
  assumes wf: "wf_table s" and lt: "occ s < capacity s"
  shows "slot_of hash_fn eq_fn s key key_len < capacity s"
    and "stops eq_fn s key key_len (slot_of hash_fn eq_fn s key key_len)"
proof -
  from free_slot [OF wf lt] obtain j where j: "j < capacity s" "\<not> occupied s j" .
  then have "stops eq_fn s key key_len j" using stops_iff [OF wf j(1)] by simp
  from slot_of_stops [OF wf j(1) this]
  show "slot_of hash_fn eq_fn s key key_len < capacity s"
    and "stops eq_fn s key key_len (slot_of hash_fn eq_fn s key key_len)" by simp_all
qed

subsection \<open>Writing an entry, deleting an entry\<close>

lemma put_entry_simps [simp]:
  "capacity (put_entry s j v) = capacity s"
  "ssize (put_entry s j v) = to_size_t (ssize s + 1)"
  by (simp_all add: put_entry_def)


lemma wf_put_entry: "wf_table s \<Longrightarrow> wf_table (put_entry s j v)"
  by (auto simp: wf_table_def put_entry_def split: option.splits)


lemma occupied_put_entry:
  "wf_table s \<Longrightarrow> j < capacity s \<Longrightarrow> i < capacity s \<Longrightarrow>
   occupied (put_entry s j v) i \<longleftrightarrow> i = j \<or> occupied s i"
  by (auto elim!: wf_tableD simp: occupied_def put_entry_def arr_read_def nth_list_update
      split: if_splits)

lemma live_put_entry:
  "wf_table s \<Longrightarrow> j < capacity s \<Longrightarrow> i < capacity s \<Longrightarrow>
   live (put_entry s j v) i w \<longleftrightarrow> (if i = j then w = v else live s i w)"
  by (auto elim!: wf_tableD simp: live_def put_entry_def arr_read_def nth_list_update
      split: if_splits)



lemma occ_put_entry:
  assumes "wf_table s" "j < capacity s"
  shows "occ (put_entry s j v) = (if occupied s j then occ s else occ s + 1)"
proof -
  from assms obtain st where st: "state s = Some st" "j < length st"
    by (auto elim: wf_tableD)
  from length_filter_update [OF st(2), of "\<lambda>x. x = 1" 1]
  show ?thesis using st by (auto simp: occ_def put_entry_def occupied_def arr_read_def)
qed



subsection \<open>The operations on a well-formed table\<close>

lemma read_state_wf:
  "wf_table s \<Longrightarrow> j < capacity s \<Longrightarrow> \<exists>x. arr_read (state s) j = Inr x \<and> (x = 1 \<longleftrightarrow> occupied s j)"
  by (auto elim!: wf_tableD simp: arr_read_def occupied_def)

lemma write_data_wf:
  "wf_table s \<Longrightarrow> j < capacity s \<Longrightarrow>
   arr_write (data s) j v = Inr (map_option (\<lambda>d. d[j := v]) (data s))"
  by (auto elim!: wf_tableD simp: arr_write_def)

lemma write_state_wf:
  "wf_table s \<Longrightarrow> j < capacity s \<Longrightarrow>
   arr_write (state s) j x = Inr (map_option (\<lambda>st. st[j := x]) (state s))"
  by (auto elim!: wf_tableD simp: arr_write_def)

lemma contains_char:
  assumes wf: "wf_table s" and lt: "slot_of hash_fn eq_fn s key key_len < capacity s"
  shows "set_contains hash_fn eq_fn (Some s) key key_len =
    Some (Inr (occupied s (slot_of hash_fn eq_fn s key key_len)))"
proof -
  from read_state_wf [OF wf lt] obtain x where
    x: "arr_read (state s) (slot_of hash_fn eq_fn s key key_len) = Inr x"
      "x = 1 \<longleftrightarrow> occupied s (slot_of hash_fn eq_fn s key key_len)" by blast
  show ?thesis
    by (simp add: set_contains_def find_slot_char [OF wf] x)
qed

lemma contains_full:
  assumes wf: "wf_table s" and full: "slot_of hash_fn eq_fn s key key_len = capacity s"
  shows "set_contains hash_fn eq_fn (Some s) key key_len = Some (Inl OutOfBounds)"
  using wf by (auto elim!: wf_tableD simp: set_contains_def find_slot_char [OF wf] full arr_read_def)


lemma insert_char:
  assumes pre: "(if load_exceeded s
                 then set_resize al hash_fn eq_fn (Some s) (to_size_t (capacity s * 2))
                 else Some (Inr (0, Some s))) = Some (Inr (rc, Some s1))"
    and wf: "wf_table s1" and lt: "slot_of hash_fn eq_fn s1 key key_len < capacity s1"
  shows "set_insert al hash_fn eq_fn (Some s) key key_len =
    Some (Inr (if occupied s1 (slot_of hash_fn eq_fn s1 key key_len)
               then (False, Some s1)
               else (True, Some (put_entry s1 (slot_of hash_fn eq_fn s1 key key_len)
                                  (key, key_len)))))"
proof -
  let ?j = "slot_of hash_fn eq_fn s1 key key_len"
  from read_state_wf [OF wf lt] obtain x where
    x: "arr_read (state s1) ?j = Inr x" "x = 1 \<longleftrightarrow> occupied s1 ?j" by blast
  show ?thesis
    unfolding set_insert_def option.case pre sum.case prod.case
    by (simp add: find_slot_char [OF wf] x write_data_wf [OF wf lt] write_state_wf [OF wf lt]
        put_entry_def)
qed


subsection \<open>resize\<close>

lemma capacity_reinsert [simp]: "capacity (reinsert hash_fn eq_fn s v) = capacity s"
  by (simp add: reinsert_def)

lemma wf_reinsert: "wf_table s \<Longrightarrow> wf_table (reinsert hash_fn eq_fn s v)"
  by (simp add: reinsert_def wf_put_entry)

lemma occ_put_entry_le:
  assumes "wf_table s"
  shows "occ (put_entry s j v) \<le> occ s + 1"
proof (cases "j < capacity s")
  case True
  then show ?thesis using occ_put_entry [OF assms True, of v] by simp
next
  case False
  then show ?thesis
    using assms by (auto elim!: wf_tableD simp: occ_def put_entry_def list_update_beyond)
qed

lemma occ_reinsert_le: "wf_table s \<Longrightarrow> occ (reinsert hash_fn eq_fn s v) \<le> occ s + 1"
  unfolding reinsert_def by (rule occ_put_entry_le)

lemma resize_loop_char:
  assumes "wf_table s" "\<forall>i \<in> set is. i < length od \<and> i < length os"
    "occ s + length is < capacity s"
  shows "resize_loop hash_fn eq_fn (Some od) (Some os) s is =
    Some (Inr (foldl (reinsert hash_fn eq_fn) s
                 (map (\<lambda>i. od ! i) (filter (\<lambda>i. os ! i = 1) is))))"
  using assms
proof (induction "is" arbitrary: s)
  case Nil
  then show ?case by simp
next
  case (Cons i "is")
  have wf: "wf_table s" by (rule Cons.prems(1))
  have i: "i < length od" "i < length os" using Cons.prems(2) by simp_all
  have rest: "\<forall>i \<in> set is. i < length od \<and> i < length os" using Cons.prems(2) by simp
  show ?case
  proof (cases "os ! i = 1")
    case False
    have "occ s + length is < capacity s" using Cons.prems(3) by simp
    from Cons.IH [OF wf rest this] show ?thesis
      using False i by (simp add: arr_read_def)
  next
    case True
    let ?v = "od ! i"
    let ?j = "slot_of hash_fn eq_fn s (fst ?v) (snd ?v)"
    have "occ s < capacity s" using Cons.prems(3) by simp
    then have lt: "?j < capacity s" by (rule slot_of_free(1) [OF wf])
    have wf': "wf_table (reinsert hash_fn eq_fn s ?v)" using wf by (rule wf_reinsert)
    have "occ (reinsert hash_fn eq_fn s ?v) + length is < capacity (reinsert hash_fn eq_fn s ?v)"
      using occ_reinsert_le [OF wf, of hash_fn eq_fn ?v] Cons.prems(3) by simp
    from Cons.IH [OF wf' rest this]
    have IH: "resize_loop hash_fn eq_fn (Some od) (Some os) (reinsert hash_fn eq_fn s ?v) is =
      Some (Inr (foldl (reinsert hash_fn eq_fn) (reinsert hash_fn eq_fn s ?v)
                 (map (\<lambda>i. od ! i) (filter (\<lambda>i. os ! i = 1) is))))" .
    have re: "s\<lparr>data := map_option (\<lambda>d. d[?j := ?v]) (data s),
              state := map_option (\<lambda>st. st[?j := 1]) (state s),
              ssize := to_size_t (Suc (ssize s))\<rparr> = reinsert hash_fn eq_fn s ?v"
      by (simp add: reinsert_def put_entry_def)
    show ?thesis
      using True i
      by (simp add: arr_read_def find_slot_char [OF wf] write_data_wf [OF wf lt]
          write_state_wf [OF wf lt] re IH)
  qed
qed

lemma wf_fresh_table: "n \<le> 32 \<Longrightarrow> wf_table (fresh_table (2 ^ n) :: ('a::zero) hset)"
  by (auto simp: wf_table_def fresh_table_def)

lemma occ_fresh_table [simp]: "occ (fresh_table n) = 0"
  by (simp add: occ_def fresh_table_def)

lemma fresh_table_simps [simp]:
  "capacity (fresh_table n) = n" "ssize (fresh_table n) = 0"
  by (simp_all add: fresh_table_def)

lemma resize_char:
  assumes old: "data s = Some od" "state s = Some os"
      "capacity s \<le> length od" "capacity s \<le> length os"
    and n: "n \<le> 32" and larger: "capacity s < 2 ^ n"
  shows "set_resize calloc_ok hash_fn eq_fn (Some s) (2 ^ n) =
    Some (Inr (0, Some (foldl (reinsert hash_fn eq_fn) (fresh_table (2 ^ n)) (live_entries s))))"
proof -
  have s1: "s\<lparr>capacity := 2 ^ n, data := calloc_data calloc_ok (2 ^ n),
              state := calloc_state calloc_ok (2 ^ n), ssize := 0\<rparr> = fresh_table (2 ^ n)"
    by (cases s) (simp add: fresh_table_def calloc_data_def calloc_state_def calloc_ok_def)
  have "resize_loop hash_fn eq_fn (Some od) (Some os) (fresh_table (2 ^ n)) [0..<capacity s] =
    Some (Inr (foldl (reinsert hash_fn eq_fn) (fresh_table (2 ^ n))
                 (map (\<lambda>i. od ! i) (filter (\<lambda>i. os ! i = 1) [0..<capacity s]))))"
    using old larger by (intro resize_loop_char wf_fresh_table n) auto
  then show ?thesis
    by (simp add: set_resize_def Let_def s1 old live_entries_def)
qed


subsection \<open>Re-inserting a list of entries\<close>

lemma wf_fold_reinsert:
  "wf_table s \<Longrightarrow> wf_table (foldl (reinsert hash_fn eq_fn) s vs)"
  by (induction vs arbitrary: s) (simp_all add: wf_reinsert)

lemma capacity_fold_reinsert [simp]:
  "capacity (foldl (reinsert hash_fn eq_fn) s vs) = capacity s"
  by (induction vs arbitrary: s) simp_all

lemma occ_fold_reinsert:
  "wf_table s \<Longrightarrow> occ (foldl (reinsert hash_fn eq_fn) s vs) \<le> occ s + length vs"
proof (induction vs arbitrary: s)
  case Nil
  then show ?case by simp
next
  case (Cons v vs)
  from Cons.IH [OF wf_reinsert [OF Cons.prems], of hash_fn eq_fn v]
    occ_reinsert_le [OF Cons.prems, of hash_fn eq_fn v]
  show ?case by simp
qed

lemma ssize_fold_reinsert:
  "ssize s + length vs < 2 ^ 64 \<Longrightarrow>
   ssize (foldl (reinsert hash_fn eq_fn) s vs) = ssize s + length vs"
proof (induction vs arbitrary: s)
  case Nil
  then show ?case by simp
next
  case (Cons v vs)
  have "ssize (reinsert hash_fn eq_fn s v) = ssize s + 1"
    using Cons.prems by (simp add: reinsert_def to_size_t_def)
  with Cons.IH [of "reinsert hash_fn eq_fn s v"] Cons.prems show ?case by simp
qed

lemma length_live_entries: "wf_table s \<Longrightarrow> length (live_entries s) = occ s"
proof (erule wf_tableD)
  fix d st n
  assume st: "data s = Some d" "state s = Some st" "length st = capacity s"
  have "filter (\<lambda>x. x = 1) st = filter (\<lambda>x. x = 1) (map ((!) st) [0..<length st])"
    by (simp only: map_nth)
  also have "\<dots> = map ((!) st) (filter (\<lambda>i. st ! i = 1) [0..<length st])"
    by (simp add: filter_map comp_def)
  finally have "length (filter (\<lambda>x. x = 1) st) = length (filter (\<lambda>i. st ! i = 1) [0..<length st])"
    by simp
  then show ?thesis using st by (simp add: live_entries_def occ_def)
qed

subsection \<open>insert and remove keep the invariant\<close>

lemma hs_inv_free: 
  assumes "hs_inv s"
  shows "occ s < capacity s"
  using assms unfolding hs_inv_def by linarith

lemma grown_facts:
  assumes inv: "hs_inv s" and bound: "load_exceeded s \<longrightarrow> 2 * capacity s \<le> 2 ^ 32"
  shows "(if load_exceeded s
          then set_resize calloc_ok hash_fn eq_fn (Some s) (to_size_t (capacity s * 2))
          else Some (Inr (0, Some s))) = Some (Inr (0, Some (grown hash_fn eq_fn s)))"
    and "wf_table (grown hash_fn eq_fn s)"
    and "capacity (grown hash_fn eq_fn s) = (if load_exceeded s then 2 * capacity s else capacity s)"
    and "occ (grown hash_fn eq_fn s) \<le> ssize (grown hash_fn eq_fn s)"
    and "10 * ssize (grown hash_fn eq_fn s) \<le> 7 * capacity (grown hash_fn eq_fn s)"
proof -
  let ?g = "grown hash_fn eq_fn s"
  from inv have wf: "wf_table s" and c16: "16 \<le> capacity s" and os: "occ s \<le> ssize s"
    and ld: "10 * ssize s \<le> 7 * capacity s + 10"
    by (simp_all add: hs_inv_def)
  have all: "(if load_exceeded s
          then set_resize calloc_ok hash_fn eq_fn (Some s) (to_size_t (capacity s * 2))
          else Some (Inr (0, Some s))) = Some (Inr (0, Some ?g)) \<and>
     wf_table ?g \<and> capacity ?g = (if load_exceeded s then 2 * capacity s else capacity s) \<and>
     occ ?g \<le> ssize ?g \<and> 10 * ssize ?g \<le> 7 * capacity ?g"
  proof (cases "load_exceeded s")
    case False
    then show ?thesis using wf os by (simp add: grown_def load_exceeded_def)
  next
    case True
    with bound have b: "2 * capacity s \<le> 2 ^ 32" by simp
    from wf obtain d st n where old: "data s = Some d" "state s = Some st"
      "length d = capacity s" "length st = capacity s" and n: "capacity s = 2 ^ n"
      by (auto elim: wf_tableD)
    have dbl: "2 * capacity s = 2 ^ Suc n" using n by simp
    have "(2::nat) ^ Suc n \<le> 2 ^ 32" using b dbl by simp
    then have n32: "Suc n \<le> 32" by (rule power_le_imp_le_exp [rotated]) simp
    have "2 * capacity s < (2::nat) ^ 64" using b by simp
    then have newcap: "to_size_t (capacity s * 2) = 2 ^ Suc n"
      using dbl by (simp add: to_size_t_def mult.commute)
    have larger: "capacity s < 2 ^ Suc n" using n by simp
    have g: "?g = foldl (reinsert hash_fn eq_fn) (fresh_table (2 ^ Suc n)) (live_entries s)"
      using True dbl by (simp add: grown_def)
    have rs: "set_resize calloc_ok hash_fn eq_fn (Some s) (2 ^ Suc n) = Some (Inr (0, Some ?g))"
      unfolding g
      by (rule resize_char [OF old(1) old(2) _ _ n32 larger]) (simp_all add: old(3) old(4))
    have wfg: "wf_table ?g" unfolding g by (intro wf_fold_reinsert wf_fresh_table n32)
    have capg: "capacity ?g = 2 * capacity s" unfolding g using dbl by simp
    have len: "length (live_entries s) = occ s" using wf by (rule length_live_entries)
    have "occ s \<le> capacity s" using wf by (rule occ_le_capacity)
    then have "ssize (fresh_table (2 ^ Suc n) :: 'a hset) + length (live_entries s) < 2 ^ 64"
      using len b by simp
    from ssize_fold_reinsert [OF this, of hash_fn eq_fn]
    have sz: "ssize ?g = occ s" unfolding g using len by simp
    have "occ ?g \<le> occ (fresh_table (2 ^ Suc n) :: 'a hset) + length (live_entries s)"
      unfolding g by (intro occ_fold_reinsert wf_fresh_table n32)
    then have og: "occ ?g \<le> ssize ?g" using sz len by simp
    have "10 * ssize ?g \<le> 7 * capacity ?g" using sz os ld c16 capg by simp
    with rs wfg capg og True newcap show ?thesis by simp
  qed
  from all show "(if load_exceeded s
          then set_resize calloc_ok hash_fn eq_fn (Some s) (to_size_t (capacity s * 2))
          else Some (Inr (0, Some s))) = Some (Inr (0, Some ?g))" by blast
  from all show "wf_table ?g" by blast
  from all show "capacity ?g = (if load_exceeded s then 2 * capacity s else capacity s)" by blast
  from all show "occ ?g \<le> ssize ?g" by blast
  from all show "10 * ssize ?g \<le> 7 * capacity ?g" by blast
qed


lemma hs_inv_grown:
  assumes "hs_inv s" "load_exceeded s \<longrightarrow> 2 * capacity s \<le> 2 ^ 32"
  shows "hs_inv (grown hash_fn eq_fn s)"
  using grown_facts(2-5) [OF assms, where hash_fn = hash_fn and eq_fn = eq_fn] assms(1)
  by (auto simp: hs_inv_def split: if_splits)

lemma wf_capacity_le: "wf_table s \<Longrightarrow> capacity s \<le> 2 ^ 32"
proof (erule wf_tableD)
  fix n assume "capacity s = 2 ^ n" "n \<le> 32"
  then show ?thesis using power_increasing [of n 32 "2::nat"] by simp
qed

lemma insert_result:
  fixes hash_fn :: "('a::zero) hash_fn" and eq_fn :: "'a eq_fn" and s :: "'a hset"
    and key :: 'a and key_len :: u32
  assumes inv: "hs_inv s" and bound: "load_exceeded s \<longrightarrow> 2 * capacity s \<le> 2 ^ 32"
  defines "g \<equiv> grown hash_fn eq_fn s"
  defines "j \<equiv> slot_of hash_fn eq_fn g key key_len"
  shows "j < capacity g"
    and "stops eq_fn g key key_len j"
    and "set_insert calloc_ok hash_fn eq_fn (Some s) key key_len =
      Some (Inr (if occupied g j then (False, Some g)
                 else (True, Some (put_entry g j (key, key_len)))))"
    and "hs_inv (if occupied g j then g else put_entry g j (key, key_len))"
proof -
  note gf = grown_facts [OF inv bound, where hash_fn = hash_fn and eq_fn = eq_fn, folded g_def]
  have ig: "hs_inv g" unfolding g_def using inv bound by (rule hs_inv_grown)
  have free: "occ g < capacity g" using ig by (rule hs_inv_free)
  show lt: "j < capacity g" unfolding j_def using gf(2) free by (rule slot_of_free(1))
  show "stops eq_fn g key key_len j" unfolding j_def using gf(2) free by (rule slot_of_free(2))
  show "set_insert calloc_ok hash_fn eq_fn (Some s) key key_len =
      Some (Inr (if occupied g j then (False, Some g)
                 else (True, Some (put_entry g j (key, key_len)))))"
    unfolding j_def using gf(1) gf(2) lt [unfolded j_def] by (rule insert_char)
  show "hs_inv (if occupied g j then g else put_entry g j (key, key_len))"
  proof (cases "occupied g j")
    case True
    then show ?thesis using ig by simp
  next
    case False
    have "capacity g \<le> 2 ^ 32" using gf(2) by (rule wf_capacity_le)
    with gf(5) have "ssize g + 1 < 2 ^ 64" by simp
    then have sz: "to_size_t (Suc (ssize g)) = Suc (ssize g)" by (simp add: to_size_t_def)
    have "occ (put_entry g j (key, key_len)) = occ g + 1"
      using occ_put_entry [OF gf(2) lt] False by simp
    moreover have "16 \<le> capacity g" using ig by (simp add: hs_inv_def)
    ultimately have "hs_inv (put_entry g j (key, key_len))"
      using gf(4) gf(5) wf_put_entry [OF gf(2)] by (simp add: hs_inv_def sz)
    with False show ?thesis by simp
  qed
qed


subsection \<open>Round trip\<close>

lemma contains_after_put:
  assumes wf: "wf_table g" and lt: "slot_of hash_fn eq_fn g key key_len < capacity g"
    and st: "stops eq_fn g key key_len (slot_of hash_fn eq_fn g key key_len)"
    and refl: "eq_fn key key_len key key_len"
  shows "set_contains hash_fn eq_fn
           (Some (put_entry g (slot_of hash_fn eq_fn g key key_len) (key, key_len)))
           key key_len = Some (Inr True)"
proof -
  let ?j = "slot_of hash_fn eq_fn g key key_len"
  let ?s = "put_entry g ?j (key, key_len)"
  have wf': "wf_table ?s" using wf by (rule wf_put_entry)
  have lt': "?j < capacity ?s" using lt by simp
  have occ': "occupied ?s ?j" using occupied_put_entry [OF wf lt lt] by simp
  have "live ?s ?j (key, key_len)" using live_put_entry [OF wf lt lt] by simp
  then have at: "stops eq_fn ?s key key_len ?j"
    using stops_iff [OF wf' lt', of eq_fn key key_len] refl by auto
  have sub: "stops eq_fn g key key_len i" if "i < capacity g" "stops eq_fn ?s key key_len i" for i
  proof (cases "i = ?j")
    case True
    then show ?thesis using st by simp
  next
    case False
    then show ?thesis
      using that stops_iff [OF wf' , of i eq_fn key key_len] stops_iff [OF wf that(1), of eq_fn key key_len]
        occupied_put_entry [OF wf lt that(1)] live_put_entry [OF wf lt that(1)]
      by simp
  qed
  have "slot_of hash_fn eq_fn ?s key key_len = ?j"
    by (rule slot_of_stable [OF _ wf lt at sub]) simp_all
  then show ?thesis
    using contains_char [OF wf', of hash_fn eq_fn key key_len] lt' occ' by simp
qed


subsection \<open>Reachable states\<close>





lemma set_init_fresh: "set_init calloc_ok (Some u) = (rc, Some s) \<Longrightarrow> s = fresh_table 16"
  by (cases u)
    (auto simp: set_init_def fresh_table_def calloc_data_def calloc_state_def calloc_ok_def
      HASHSET_INITIAL_CAPACITY_def)

lemma hs_inv_fresh_16: "hs_inv (fresh_table 16 :: ('a::zero) hset)"
  using wf_fresh_table [of 4, where 'a = 'a] by (simp add: hs_inv_def)







lemma reachable_ex_s3: "reachable hashset_hash_int32 eq_u32 ex_s3"
  by (rule reach_remove [OF reach_insert [OF reach_insert [OF reach_init [OF set_init_ok]
          ex_insert_42] ex_insert_25] ex_remove_42])


subsection \<open>Keys that stay, keys that are absent\<close>

lemma slot_of_lt_stops:
  assumes "wf_table s" "slot_of hash_fn eq_fn s key key_len < capacity s"
  shows "stops eq_fn s key key_len (slot_of hash_fn eq_fn s key key_len)"
proof (cases "find (stops eq_fn s key key_len)
    (probe_seq (capacity s) (unat (hash_fn key key_len) mod capacity s))")
  case None
  then show ?thesis using assms(2) by (simp add: slot_of_def)
next
  case (Some r)
  then have "stops eq_fn s key key_len r" by (auto simp: find_Some_iff)
  with Some show ?thesis by (simp add: slot_of_def)
qed

lemma contains_True_iff:
  assumes wf: "wf_table s"
  shows "set_contains hash_fn eq_fn (Some s) key key_len = Some (Inr True) \<longleftrightarrow>
    slot_of hash_fn eq_fn s key key_len < capacity s \<and>
    occupied s (slot_of hash_fn eq_fn s key key_len)"
proof (cases "slot_of hash_fn eq_fn s key key_len < capacity s")
  case True
  then show ?thesis using contains_char [OF wf True] by simp
next
  case False
  then have "slot_of hash_fn eq_fn s key key_len = capacity s"
    using slot_of_le [OF wf, of hash_fn eq_fn key key_len] by simp
  then show ?thesis using contains_full [OF wf] by simp
qed

text \<open>
  Writing an entry into the slot where its own probe ends keeps every key that was found
  before. When that slot was occupied, its old entry is equal to the new one, and the
  equality function has to be an equivalence for the probes of other keys to pass or stop
  there as before.
\<close>

lemma contains_preserved_put:
  assumes wf: "wf_table t"
    and j: "j = slot_of hash_fn eq_fn t (fst v) (snd v)" "j < capacity t"
    and eqv: "occupied t j \<longrightarrow> eq_equiv eq_fn"
    and x: "set_contains hash_fn eq_fn (Some t) key key_len = Some (Inr True)"
  shows "set_contains hash_fn eq_fn (Some (put_entry t j v)) key key_len = Some (Inr True)"
proof -
  let ?t = "put_entry t j v"
  let ?i = "slot_of hash_fn eq_fn t key key_len"
  have wf': "wf_table ?t" using wf by (rule wf_put_entry)
  from x have i: "?i < capacity t" "occupied t ?i"
    using contains_True_iff [OF wf] by simp_all
  have sti: "stops eq_fn t key key_len ?i" using wf i(1) by (rule slot_of_lt_stops)
  have stj: "stops eq_fn t (fst v) (snd v) j" using slot_of_lt_stops [OF wf] j by simp
  have lvj: "live ?t j v" using live_put_entry [OF wf j(2) j(2)] by simp
  have same: "stops eq_fn ?t key key_len m \<longleftrightarrow> stops eq_fn t key key_len m"
    if "m < capacity t" "m \<noteq> j" for m
    using that stops_iff [OF wf', of m eq_fn key key_len] stops_iff [OF wf that(1), of eq_fn key key_len]
      occupied_put_entry [OF wf j(2) that(1)] live_put_entry [OF wf j(2) that(1)]
    by simp
  have atj: "stops eq_fn ?t key key_len j \<longleftrightarrow> eq_fn (fst v) (snd v) key key_len"
    using stops_iff [OF wf', of j eq_fn key key_len] j(2) lvj occupied_put_entry [OF wf j(2) j(2)]
    by (auto dest: live_unique)
  have dup: "stops eq_fn t key key_len j \<longleftrightarrow> eq_fn (fst v) (snd v) key key_len" if "occupied t j"
  proof -
    from that eqv have e: "eq_equiv eq_fn" by simp
    from that obtain w where w: "live t j w" using occupied_live [OF wf j(2)] by blast
    with stj that have wv: "eq_fn (fst w) (snd w) (fst v) (snd v)"
      using stops_iff [OF wf j(2), of eq_fn "fst v" "snd v"] by (auto dest: live_unique)
    have "stops eq_fn t key key_len j \<longleftrightarrow> eq_fn (fst w) (snd w) key key_len"
      using stops_iff [OF wf j(2), of eq_fn key key_len] that w by (auto dest: live_unique)
    also have "\<dots> \<longleftrightarrow> eq_fn (fst v) (snd v) key key_len"
      using e wv unfolding eq_equiv_def by blast
    finally show ?thesis .
  qed
  have at: "stops eq_fn ?t key key_len ?i"
  proof (cases "?i = j")
    case True
    with i(2) dup sti atj show ?thesis by simp
  next
    case False
    with same [OF i(1)] sti show ?thesis by simp
  qed
  have sub: "stops eq_fn t key key_len m" if "m < capacity t" "stops eq_fn ?t key key_len m" for m
  proof (cases "m = j")
    case False
    with same that show ?thesis by simp
  next
    case True
    show ?thesis
    proof (cases "occupied t j")
      case True
      with dup atj that \<open>m = j\<close> show ?thesis by simp
    next
      case False
      then show ?thesis using stops_iff [OF wf j(2), of eq_fn key key_len] \<open>m = j\<close> by simp
    qed
  qed
  have "slot_of hash_fn eq_fn ?t key key_len = ?i"
    by (rule slot_of_stable [OF _ wf i(1) at sub]) simp_all
  moreover have "occupied ?t ?i" using occupied_put_entry [OF wf j(2) i(1)] i(2) by simp
  ultimately show ?thesis using contains_True_iff [OF wf'] i(1) by simp
qed


subsection \<open>What re-inserting keeps\<close>

lemma reinsert_contains_old:
  assumes wf: "wf_table t" and free: "occ t < capacity t" and eqv: "eq_equiv eq_fn"
    and x: "set_contains hash_fn eq_fn (Some t) key key_len = Some (Inr True)"
  shows "set_contains hash_fn eq_fn (Some (reinsert hash_fn eq_fn t v)) key key_len =
    Some (Inr True)"
  unfolding reinsert_def
  using wf refl slot_of_free(1) [OF wf free] _ x
  by (rule contains_preserved_put) (simp add: eqv)

lemma reinsert_contains_new:
  assumes wf: "wf_table t" and free: "occ t < capacity t" and eqv: "eq_equiv eq_fn"
  shows "set_contains hash_fn eq_fn (Some (reinsert hash_fn eq_fn t v)) (fst v) (snd v) =
    Some (Inr True)"
proof -
  have "eq_fn (fst v) (snd v) (fst v) (snd v)" using eqv by (simp add: eq_equiv_def)
  with wf slot_of_free [OF wf free, where hash_fn = hash_fn and eq_fn = eq_fn
      and key = "fst v" and key_len = "snd v"]
  have "set_contains hash_fn eq_fn
      (Some (put_entry t (slot_of hash_fn eq_fn t (fst v) (snd v)) (fst v, snd v)))
      (fst v) (snd v) = Some (Inr True)"
    by (intro contains_after_put)
  then show ?thesis by (simp add: reinsert_def)
qed

lemma reinsert_live:
  assumes wf: "wf_table t" and free: "occ t < capacity t"
    and l: "j < capacity t" "live (reinsert hash_fn eq_fn t v) j w"
  shows "live t j w \<or> w = v"
proof -
  let ?i = "slot_of hash_fn eq_fn t (fst v) (snd v)"
  have i: "?i < capacity t" using wf free by (rule slot_of_free(1))
  have "live (put_entry t ?i v) j w \<longleftrightarrow> (if j = ?i then w = v else live t j w)"
    using wf i l(1) by (rule live_put_entry)
  with l(2) show ?thesis by (simp add: reinsert_def split: if_splits)
qed

lemma read_state_put_entry:
  "wf_table t \<Longrightarrow> i < capacity t \<Longrightarrow>
   arr_read (state (put_entry t j v)) i = (if i = j then Inr 1 else arr_read (state t) i)"
  by (auto elim!: wf_tableD simp: put_entry_def arr_read_def)

lemma no_tombstone_reinsert:
  "wf_table t \<Longrightarrow> no_tombstone t \<Longrightarrow> no_tombstone (reinsert hash_fn eq_fn t v)"
  by (simp add: no_tombstone_def reinsert_def read_state_put_entry)

lemma no_tombstone_fresh: "no_tombstone (fresh_table n)"
  by (simp add: no_tombstone_def fresh_table_def arr_read_def)

lemma fold_reinsert_facts:
  assumes "wf_table t" "occ t + length vs < capacity t" "eq_equiv eq_fn"
  shows "(\<forall>key key_len. set_contains hash_fn eq_fn (Some t) key key_len = Some (Inr True) \<longrightarrow>
            set_contains hash_fn eq_fn (Some (foldl (reinsert hash_fn eq_fn) t vs)) key key_len =
              Some (Inr True)) \<and>
         (\<forall>v \<in> set vs.
            set_contains hash_fn eq_fn (Some (foldl (reinsert hash_fn eq_fn) t vs)) (fst v) (snd v) =
              Some (Inr True))"
  using assms(1,2)
proof (induction vs arbitrary: t)
  case Nil
  then show ?case by simp
next
  case (Cons v vs)
  let ?t = "reinsert hash_fn eq_fn t v"
  have wf: "wf_table t" by (rule Cons.prems(1))
  have free: "occ t < capacity t" using Cons.prems(2) by simp
  have wf': "wf_table ?t" using wf by (rule wf_reinsert)
  have "occ ?t + length vs < capacity ?t"
    using occ_reinsert_le [OF wf, of hash_fn eq_fn v] Cons.prems(2) by simp
  note IH = Cons.IH [OF wf' this]
  have old: "set_contains hash_fn eq_fn (Some ?t) key key_len = Some (Inr True)"
    if "set_contains hash_fn eq_fn (Some t) key key_len = Some (Inr True)" for key key_len
    using wf free assms(3) that by (rule reinsert_contains_old)
  have new: "set_contains hash_fn eq_fn (Some ?t) (fst v) (snd v) = Some (Inr True)"
    using wf free assms(3) by (rule reinsert_contains_new)
  from IH old new show ?case by auto
qed

lemma fold_reinsert_live:
  assumes "wf_table t" "occ t + length vs < capacity t"
    "j < capacity t" "live (foldl (reinsert hash_fn eq_fn) t vs) j w"
  shows "live t j w \<or> w \<in> set vs"
  using assms
proof (induction vs arbitrary: t)
  case Nil
  then show ?case by simp
next
  case (Cons v vs)
  let ?t = "reinsert hash_fn eq_fn t v"
  have wf: "wf_table t" by (rule Cons.prems(1))
  have free: "occ t < capacity t" using Cons.prems(2) by simp
  have wf': "wf_table ?t" using wf by (rule wf_reinsert)
  have "occ ?t + length vs < capacity ?t"
    using occ_reinsert_le [OF wf, of hash_fn eq_fn v] Cons.prems(2) by simp
  from Cons.IH [OF wf' this] Cons.prems(3,4)
  have "live ?t j w \<or> w \<in> set vs" by simp
  then show ?case
  proof
    assume "live ?t j w"
    with wf free Cons.prems(3) have "live t j w \<or> w = v" by (rule reinsert_live)
    then show ?thesis by (simp only: list.set insert_iff) blast
  next
    assume "w \<in> set vs"
    then show ?thesis by simp
  qed
qed

lemma no_tombstone_fold:
  "wf_table t \<Longrightarrow> no_tombstone t \<Longrightarrow> no_tombstone (foldl (reinsert hash_fn eq_fn) t vs)"
  by (induction vs arbitrary: t) (simp_all add: no_tombstone_reinsert wf_reinsert)

lemma set_live_entries:
  assumes "wf_table s"
  shows "set (live_entries s) = {v. \<exists>i < capacity s. live s i v}"
proof -
  from assms obtain d st where old: "data s = Some d" "state s = Some st"
    "length d = capacity s" "length st = capacity s"
    by (auto elim: wf_tableD)
  have liv: "live s i v \<longleftrightarrow> st ! i = 1 \<and> d ! i = v" if "i < capacity s" for i v
    using that old by (simp add: live_def arr_read_def)
  have "set (live_entries s) = (\<lambda>i. d ! i) ` {i. i < capacity s \<and> st ! i = 1}"
    using old by (simp add: live_entries_def conj_commute)
  also have "\<dots> = {v. \<exists>i < capacity s. live s i v}"
  proof (intro set_eqI iffI)
    fix v assume "v \<in> (\<lambda>i. d ! i) ` {i. i < capacity s \<and> st ! i = 1}"
    then obtain i where "i < capacity s" "st ! i = 1" "v = d ! i" by blast
    then have "i < capacity s \<and> live s i v" using liv by simp
    then show "v \<in> {v. \<exists>i < capacity s. live s i v}" by blast
  next
    fix v assume "v \<in> {v. \<exists>i < capacity s. live s i v}"
    then obtain i where i: "i < capacity s" "live s i v" by blast
    then have "st ! i = 1" "d ! i = v" using liv by simp_all
    with i(1) show "v \<in> (\<lambda>i. d ! i) ` {i. i < capacity s \<and> st ! i = 1}" by blast
  qed
  finally show ?thesis .
qed

lemma not_live_fresh: "\<not> live (fresh_table n) j w"
  by (simp add: live_def fresh_table_def arr_read_def)

text \<open>A key that no live entry is equal to is not found, as long as a slot is free.\<close>

lemma contains_absent:
  assumes wf: "wf_table t" and free: "occ t < capacity t"
    and absent: "\<And>j w. j < capacity t \<Longrightarrow> live t j w \<Longrightarrow> \<not> eq_fn (fst w) (snd w) key key_len"
  shows "set_contains hash_fn eq_fn (Some t) key key_len = Some (Inr False)"
proof -
  let ?j = "slot_of hash_fn eq_fn t key key_len"
  note sl = slot_of_free [OF wf free, where hash_fn = hash_fn and eq_fn = eq_fn
      and key = key and key_len = key_len]
  have "\<not> occupied t ?j"
    using sl(2) stops_iff [OF wf sl(1), where eq_fn = eq_fn and key = key and key_len = key_len]
      absent [OF sl(1)] by auto
  then show ?thesis using contains_char [OF wf sl(1)] by simp
qed

lemma occ_live_entries_bound:
  assumes "wf_table s" "capacity s < 2 ^ n"
  shows "occ (fresh_table (2 ^ n) :: ('a::zero) hset) + length (live_entries (s :: 'a hset)) < 
         capacity (fresh_table (2 ^ n) :: 'a hset)"
  using length_live_entries [OF assms(1)] occ_le_capacity [OF assms(1)] assms(2) by simp

lemma resized_facts:
  fixes hash_fn :: "('a::zero) hash_fn" and s :: "'a hset"
  assumes wf: "wf_table s" and n: "n \<le> 32" and larger: "capacity s < 2 ^ n"
    and eqv: "eq_equiv eq_fn"
  defines "s' \<equiv> foldl (reinsert hash_fn eq_fn) (fresh_table (2 ^ n)) (live_entries s)"
  shows "set_resize calloc_ok hash_fn eq_fn (Some s) (2 ^ n) = Some (Inr (0, Some s'))"
    and "wf_table s'" and "capacity s' = 2 ^ n" and "occ s' \<le> occ s"
    and "\<And>i v. i < capacity s \<Longrightarrow> live s i v \<Longrightarrow>
          set_contains hash_fn eq_fn (Some s') (fst v) (snd v) = Some (Inr True)"
    and "\<And>j w. j < 2 ^ n \<Longrightarrow> live s' j w \<Longrightarrow> \<exists>i < capacity s. live s i w"
    and "no_tombstone s'"
proof -
  let ?f = "fresh_table (2 ^ n) :: 'a hset"
  from wf obtain d st where old: "data s = Some d" "state s = Some st"
    "length d = capacity s" "length st = capacity s"
    by (auto elim: wf_tableD)
  have wff: "wf_table ?f" using n by (rule wf_fresh_table)
  have room: "occ ?f + length (live_entries s) < capacity ?f"
    using wf larger by (rule occ_live_entries_bound)
  show "set_resize calloc_ok hash_fn eq_fn (Some s) (2 ^ n) = Some (Inr (0, Some s'))"
    unfolding s'_def
    by (rule resize_char [OF old(1) old(2) _ _ n larger]) (simp_all add: old(3) old(4))
  show "wf_table s'" unfolding s'_def using wff by (rule wf_fold_reinsert)
  show "capacity s' = 2 ^ n" unfolding s'_def by simp
  show "occ s' \<le> occ s"
    unfolding s'_def
    using occ_fold_reinsert [OF wff, of hash_fn eq_fn "live_entries s"] length_live_entries [OF wf]
    by simp
  show "set_contains hash_fn eq_fn (Some s') (fst v) (snd v) = Some (Inr True)"
    if "i < capacity s" "live s i v" for i v
  proof -
    have "v \<in> set (live_entries s)" using that set_live_entries [OF wf] by blast
    then show ?thesis
      unfolding s'_def using fold_reinsert_facts [OF wff room eqv, of hash_fn] by blast
  qed
  show "\<exists>i < capacity s. live s i w" if "j < 2 ^ n" "live s' j w" for j w
  proof -
    have "j < capacity ?f" using that(1) by simp
    from fold_reinsert_live [OF wff room this that(2) [unfolded s'_def]]
    have "w \<in> set (live_entries s)" by (simp add: not_live_fresh)
    then show ?thesis using set_live_entries [OF wf] by blast
  qed
  show "no_tombstone s'"
    unfolding s'_def using wff no_tombstone_fresh by (rule no_tombstone_fold)
qed

lemma no_tombstone_put:
  "wf_table t \<Longrightarrow> no_tombstone t \<Longrightarrow> no_tombstone (put_entry t j v)"
  by (simp add: no_tombstone_def read_state_put_entry)

subsection \<open>Inserting keys that are not yet stored\<close>

lemma live_grown:
  fixes hash_fn :: "('a::zero) hash_fn" and s :: "'a hset"
  assumes inv: "hs_inv s" and bound: "load_exceeded s \<longrightarrow> 2 * capacity s \<le> 2 ^ 32"
    and l: "j < capacity (grown hash_fn eq_fn s)" "live (grown hash_fn eq_fn s) j w"
  shows "\<exists>i < capacity s. live s i w"
proof (cases "load_exceeded s")
  case False
  with l show ?thesis by (auto simp: grown_def)
next
  case True
  let ?f = "fresh_table (2 * capacity s) :: 'a hset"
  from inv have wf: "wf_table s" by (simp add: hs_inv_def)
  then obtain n where n: "capacity s = 2 ^ n" by (auto elim: wf_tableD)
  have dbl: "2 * capacity s = 2 ^ Suc n" using n by simp
  have "(2::nat) ^ Suc n \<le> 2 ^ 32" using bound True dbl by simp
  then have n32: "Suc n \<le> 32" by (rule power_le_imp_le_exp [rotated]) simp
  have wff: "wf_table ?f" unfolding dbl using n32 by (rule wf_fresh_table)
  have "capacity s < 2 ^ Suc n" using n by simp
  with wf have room: "occ ?f + length (live_entries s) < capacity ?f"
    unfolding dbl by (rule occ_live_entries_bound)
  have g: "grown hash_fn eq_fn s = foldl (reinsert hash_fn eq_fn) ?f (live_entries s)"
    using True by (simp add: grown_def)
  have "j < capacity ?f" using l(1) unfolding g by simp
  from fold_reinsert_live [OF wff room this l(2) [unfolded g]]
  have "w \<in> set (live_entries s)" by (simp add: not_live_fresh)
  then show ?thesis using set_live_entries [OF wf] by blast
qed

text \<open>Inserting a key that no live entry is equal to succeeds.\<close>

lemma insert_fresh:
  fixes hash_fn :: "('a::zero) hash_fn" and s :: "'a hset"
  assumes inv: "hs_inv s" and bound: "load_exceeded s \<longrightarrow> 2 * capacity s \<le> 2 ^ 32"
    and absent: "\<forall>i w. i < capacity s \<and> live s i w \<longrightarrow> \<not> eq_fn (fst w) (snd w) key key_len"
  shows "\<exists>s'. set_insert calloc_ok hash_fn eq_fn (Some s) key key_len = Some (Inr (True, Some s')) \<and>
      hs_inv s' \<and>
      capacity s' = (if load_exceeded s then 2 * capacity s else capacity s) \<and>
      (\<not> load_exceeded s \<longrightarrow> ssize s' = ssize s + 1) \<and>
      (\<forall>j w. j < capacity s' \<and> live s' j w \<longrightarrow> w = (key, key_len) \<or> (\<exists>i < capacity s. live s i w))"
proof -
  let ?g = "grown hash_fn eq_fn s"
  let ?j = "slot_of hash_fn eq_fn ?g key key_len"
  let ?t = "put_entry ?g ?j (key, key_len)"
  note ins = insert_result [OF inv bound, where hash_fn = hash_fn and eq_fn = eq_fn
      and key = key and key_len = key_len]
  note gf = grown_facts [OF inv bound, where hash_fn = hash_fn and eq_fn = eq_fn]
  have free: "\<not> occupied ?g ?j"
  proof
    assume "occupied ?g ?j"
    then obtain w where w: "live ?g ?j w" "eq_fn (fst w) (snd w) key key_len"
      using ins(2) stops_iff [OF gf(2) ins(1), where eq_fn = eq_fn and key = key and key_len = key_len]
      by auto
    from live_grown [OF inv bound ins(1) w(1)] absent w(2) show False by blast
  qed
  have r: "set_insert calloc_ok hash_fn eq_fn (Some s) key key_len = Some (Inr (True, Some ?t))"
    using ins(3) free by simp
  have i: "hs_inv ?t" using ins(4) free by simp
  have c: "capacity ?t = (if load_exceeded s then 2 * capacity s else capacity s)"
    using gf(3) by simp
  have sz: "ssize ?t = ssize s + 1" if "\<not> load_exceeded s"
  proof -
    from inv have "wf_table s" by (simp add: hs_inv_def)
    then have "capacity s \<le> 2 ^ 32" by (rule wf_capacity_le)
    moreover have "10 * ssize s \<le> 7 * capacity s" using that by (simp add: load_exceeded_def)
    ultimately have "ssize s + 1 < 2 ^ 64" by simp
    then show ?thesis using that by (simp add: grown_def to_size_t_def)
  qed
  have lv: "w = (key, key_len) \<or> (\<exists>i < capacity s. live s i w)"
    if "j < capacity ?t" "live ?t j w" for j w
  proof -
    have j: "j < capacity ?g" using that(1) by simp
    from live_put_entry [OF gf(2) ins(1) j, of "(key, key_len)" w] that(2)
    have "w = (key, key_len) \<or> live ?g j w" by (simp split: if_splits)
    then show ?thesis using live_grown [OF inv bound j] by blast
  qed
  from r i c sz lv show ?thesis by blast
qed


lemma insert_seq_fresh:
  fixes hash_fn :: "('a::zero) hash_fn" and s :: "'a hset"
  assumes "hs_inv s" "capacity s = 16" "ssize s + length ks = 13" "ks \<noteq> []"
    "distinct_keys eq_fn ks"
    "\<forall>i w. i < capacity s \<and> live s i w \<longrightarrow>
       (\<forall>k \<in> set ks. \<not> eq_fn (fst w) (snd w) (fst k) (snd k))"
  shows "\<exists>rs. insert_seq hash_fn eq_fn s ks = Some rs \<and>
      map (\<lambda>(ld, b, s'). (ld, b, capacity s')) rs =
        replicate (12 - ssize s) (False, True, 16) @ [(True, True, 32)]"
  using assms
proof (induction ks arbitrary: s)
  case Nil
  then show ?case by simp
next
  case (Cons k ks)
  have inv: "hs_inv s" by (rule Cons.prems(1))
  have cap: "capacity s = 16" by (rule Cons.prems(2))
  have bound: "load_exceeded s \<longrightarrow> 2 * capacity s \<le> 2 ^ 32" using cap by simp
  have absent: "\<forall>i w. i < capacity s \<and> live s i w \<longrightarrow> \<not> eq_fn (fst w) (snd w) (fst k) (snd k)"
    using Cons.prems(6) by simp
  from insert_fresh [where hash_fn = hash_fn and eq_fn = eq_fn and key = "fst k"
      and key_len = "snd k", OF inv bound absent]
  obtain s' where s': "set_insert calloc_ok hash_fn eq_fn (Some s) (fst k) (snd k) =
      Some (Inr (True, Some s'))" "hs_inv s'"
    "capacity s' = (if load_exceeded s then 2 * capacity s else capacity s)"
    "\<not> load_exceeded s \<longrightarrow> ssize s' = ssize s + 1"
    "\<forall>j w. j < capacity s' \<and> live s' j w \<longrightarrow> w = (fst k, snd k) \<or> (\<exists>i < capacity s. live s i w)"
    by blast
  show ?case
  proof (cases "ks = []")
    case True
    then have "ssize s = 12" using Cons.prems(3) by simp
    then have ld: "load_exceeded s" using cap by (simp add: load_exceeded_def)
    then have "capacity s' = 32" using s'(3) cap by simp
    then show ?thesis using True s'(1) ld \<open>ssize s = 12\<close> by simp
  next
    case False
    then have sz: "ssize s < 12" using Cons.prems(3) by (cases ks) simp_all
    then have ld: "\<not> load_exceeded s" using cap by (simp add: load_exceeded_def)
    then have c': "capacity s' = 16" and sz': "ssize s' = ssize s + 1"
      using s'(3,4) cap by simp_all
    have len: "ssize s' + length ks = 13" using sz' Cons.prems(3) by simp
    have dk: "distinct_keys eq_fn ks" using Cons.prems(5) by simp
    have ab: "\<forall>i w. i < capacity s' \<and> live s' i w \<longrightarrow>
        (\<forall>x \<in> set ks. \<not> eq_fn (fst w) (snd w) (fst x) (snd x))"
    proof (intro allI impI ballI)
      fix i w x assume iw: "i < capacity s' \<and> live s' i w" and x: "x \<in> set ks"
      from s'(5) iw have "w = (fst k, snd k) \<or> (\<exists>i < capacity s. live s i w)" by blast
      then show "\<not> eq_fn (fst w) (snd w) (fst x) (snd x)"
      proof
        assume "w = (fst k, snd k)"
        then show ?thesis using Cons.prems(5) x by simp
      next
        assume "\<exists>i < capacity s. live s i w"
        then show ?thesis using Cons.prems(6) x by auto
      qed
    qed
    from Cons.IH [OF s'(2) c' len False dk ab]
    obtain rs where rs: "insert_seq hash_fn eq_fn s' ks = Some rs"
      "map (\<lambda>(ld, b, s'). (ld, b, capacity s')) rs =
        replicate (12 - ssize s') (False, True, 16) @ [(True, True, 32)]"
      by blast
    have "12 - ssize s = Suc (12 - ssize s')" using sz sz' by simp
    then show ?thesis using s'(1) rs ld c' by simp
  qed
qed

subsection \<open>The set with 12 entries and a tombstone\<close>

lemma reachable_insert_seq:
  "reachable hash_fn eq_fn s \<Longrightarrow> insert_seq hash_fn eq_fn s ks = Some rs \<Longrightarrow>
   (ld, b, s') \<in> set rs \<Longrightarrow> reachable hash_fn eq_fn s'"
proof (induction ks arbitrary: s rs)
  case Nil
  then show ?case by simp
next
  case (Cons k ks)
  from Cons.prems(2) obtain b1 s1 rs1 where
    s1: "set_insert calloc_ok hash_fn eq_fn (Some s) (fst k) (snd k) = Some (Inr (b1, Some s1))"
    and rs1: "insert_seq hash_fn eq_fn s1 ks = Some rs1"
    and rs: "rs = (load_exceeded s, b1, s1) # rs1"
    by (auto split: option.splits sum.splits)
  have r1: "reachable hash_fn eq_fn s1" using Cons.prems(1) s1 by (rule reach_insert)
  from Cons.prems(3) rs have "(ld, b, s') = (load_exceeded s, b1, s1) \<or> (ld, b, s') \<in> set rs1"
    by simp
  then show ?case
  proof
    assume "(ld, b, s') = (load_exceeded s, b1, s1)"
    with r1 show ?thesis by simp
  next
    assume "(ld, b, s') \<in> set rs1"
    with Cons.IH [OF r1 rs1] show ?thesis by simp
  qed
qed

lemma ex_insert_keys:
  "\<exists>rs. insert_seq hashset_hash_int32 eq_u32 ex_s3 ex_keys = Some rs \<and>
     (False, True, ex_s12) \<in> set rs"
  by (simp add: hs_eval ex_s3_def ex_s12_def ex_keys_def)


lemma reachable_ex_s12: "reachable hashset_hash_int32 eq_u32 ex_s12"
  using ex_insert_keys reachable_insert_seq [OF reachable_ex_s3] by blast

lemma eq_equiv_eq_u32: "eq_equiv eq_u32"
  by (simp add: eq_equiv_def eq_u32_def)

lemma wf_ex_s12: "wf_table ex_s12"
  unfolding wf_table_def by (simp add: ex_s12_def) (rule exI [of _ 4], simp)

subsection \<open>The set with a removed key of which a copy is left\<close>

lemma ex_remove_25:
  "set_remove hashset_hash_int32 eq_u32 (Some ex_s4) 25 0 = Some (Inr (True, Some ex_s5))"
  by (simp add: hs_eval ex_s4_def ex_s5_def)

lemma reachable_ex_s5: "reachable hashset_hash_int32 eq_u32 ex_s5"
  by (rule reach_remove [OF reach_insert [OF reachable_ex_s3 ex_insert_25_again] ex_remove_25])

lemma ex_insert_keys_s5:
  "\<exists>rs. insert_seq hashset_hash_int32 eq_u32 ex_s5 ex_keys = Some rs \<and>
     map fst rs = replicate 11 False \<and> map (fst \<circ> snd) rs = replicate 11 True \<and>
     snd (snd (last rs)) = ex_t12"
  by (simp add: hs_eval ex_s5_def ex_t12_def ex_keys_def) (simp add: eval_nat_numeral)

text \<open>
  What \<^verbatim>\<open>resize\<close> does keep. A well-formed table, with any number of tombstones, is
  resized to a larger power-of-two capacity with allocations that succeed, the equality
  function being an equivalence. Then \<^verbatim>\<open>resize\<close> returns 0, and in the new table every
  live entry of the old table is found by \<^verbatim>\<open>contains\<close>, every key that no live entry
  is equal to is not found, and every slot is empty or occupied; the same holds of the set
  that an \<^verbatim>\<open>insert\<close> returns whose load test fires, for the keys other than the
  inserted one. An entry that \<^verbatim>\<open>remove\<close> has marked deleted while an equal entry is
  still in an occupied slot is live in this sense.
\<close>

lemma resize_keeps_live_entries:
  fixes hash_fn :: "('a::zero) hash_fn" and s :: "'a hset"
  assumes wf: "wf_table s" and n: "n \<le> 32" and larger: "capacity s < 2 ^ n"
    and eqv: "eq_equiv eq_fn"
  shows "\<exists>s'. set_resize calloc_ok hash_fn eq_fn (Some s) (2 ^ n) = Some (Inr (0, Some s')) \<and>
      capacity s' = 2 ^ n \<and>
      (\<forall>i v. i < capacity s \<and> live s i v \<longrightarrow>
         set_contains hash_fn eq_fn (Some s') (fst v) (snd v) = Some (Inr True)) \<and>
      (\<forall>key key_len.
         (\<forall>i v. i < capacity s \<and> live s i v \<longrightarrow> \<not> eq_fn (fst v) (snd v) key key_len) \<longrightarrow>
         set_contains hash_fn eq_fn (Some s') key key_len = Some (Inr False)) \<and>
      no_tombstone s' \<and>
      (load_exceeded s \<and> 2 ^ n = 2 * capacity s \<and> 1 < capacity s \<longrightarrow>
         (\<forall>k l. \<exists>b s''.
            set_insert calloc_ok hash_fn eq_fn (Some s) k l = Some (Inr (b, Some s'')) \<and>
            capacity s'' = 2 ^ n \<and>
            (\<forall>i v. i < capacity s \<and> live s i v \<longrightarrow>
               set_contains hash_fn eq_fn (Some s'') (fst v) (snd v) = Some (Inr True)) \<and>
            (\<forall>key key_len.
               (\<forall>i v. i < capacity s \<and> live s i v \<longrightarrow> \<not> eq_fn (fst v) (snd v) key key_len) \<and>
               \<not> eq_fn k l key key_len \<longrightarrow>
               set_contains hash_fn eq_fn (Some s'') key key_len = Some (Inr False)) \<and>
            no_tombstone s''))"
proof -
  define s' where "s' = foldl (reinsert hash_fn eq_fn) (fresh_table (2 ^ n)) (live_entries s)"
  note rf = resized_facts [OF wf n larger eqv, where hash_fn = hash_fn, folded s'_def]
  have free: "occ s' < capacity s'"
    using rf(3,4) occ_le_capacity [OF wf] larger by simp
  have absent: "set_contains hash_fn eq_fn (Some s') key key_len = Some (Inr False)"
    if "\<forall>i v. i < capacity s \<and> live s i v \<longrightarrow> \<not> eq_fn (fst v) (snd v) key key_len"
    for key key_len
  proof (rule contains_absent [OF rf(2) free])
    fix j w assume "j < capacity s'" "live s' j w"
    then obtain i where "i < capacity s" "live s i w" using rf(6) [of j w] rf(3) by auto
    with that show "\<not> eq_fn (fst w) (snd w) key key_len" by blast
  qed
  have trig: "\<exists>b s''.
      set_insert calloc_ok hash_fn eq_fn (Some s) k l = Some (Inr (b, Some s'')) \<and>
      capacity s'' = 2 ^ n \<and>
      (\<forall>i v. i < capacity s \<and> live s i v \<longrightarrow>
         set_contains hash_fn eq_fn (Some s'') (fst v) (snd v) = Some (Inr True)) \<and>
      (\<forall>key key_len.
         (\<forall>i v. i < capacity s \<and> live s i v \<longrightarrow> \<not> eq_fn (fst v) (snd v) key key_len) \<and>
         \<not> eq_fn k l key key_len \<longrightarrow>
         set_contains hash_fn eq_fn (Some s'') key key_len = Some (Inr False)) \<and>
      no_tombstone s''"
    if ld: "load_exceeded s" and dbl: "2 ^ n = 2 * capacity s" and c1: "1 < capacity s" for k l
  proof -
    let ?j = "slot_of hash_fn eq_fn s' k l"
    have "(2::nat) ^ n \<le> 2 ^ 32" using n power_increasing [of n 32 "2::nat"] by simp
    then have "2 * capacity s < 2 ^ 64" using dbl by simp
    then have "to_size_t (capacity s * 2) = 2 ^ n"
      using dbl by (simp add: to_size_t_def mult.commute)
    then have pre: "(if load_exceeded s
        then set_resize calloc_ok hash_fn eq_fn (Some s) (to_size_t (capacity s * 2))
        else Some (Inr (0, Some s))) = Some (Inr (0, Some s'))"
      using ld rf(1) by simp
    have lt: "?j < capacity s'" using rf(2) free by (rule slot_of_free(1))
    have stj: "stops eq_fn s' k l ?j" using rf(2) free by (rule slot_of_free(2))
    note ins = insert_char [OF pre rf(2) lt]
    show ?thesis
    proof (cases "occupied s' ?j")
      case True
      with ins have "set_insert calloc_ok hash_fn eq_fn (Some s) k l = Some (Inr (False, Some s'))"
        by simp
      with rf(3) rf(5) rf(7) absent show ?thesis by blast
    next
      case False
      let ?t = "put_entry s' ?j (k, l)"
      from False ins
      have r: "set_insert calloc_ok hash_fn eq_fn (Some s) k l = Some (Inr (True, Some ?t))"
        by simp
      have wft: "wf_table ?t" using rf(2) by (rule wf_put_entry)
      have capt: "capacity ?t = 2 ^ n" using rf(3) by simp
      have keep: "set_contains hash_fn eq_fn (Some ?t) (fst v) (snd v) = Some (Inr True)"
        if "i < capacity s" "live s i v" for i v
      proof -
        have "set_contains hash_fn eq_fn (Some s') (fst v) (snd v) = Some (Inr True)"
          using that by (rule rf(5))
        with rf(2) _ lt _ show ?thesis
          by (rule contains_preserved_put) (simp_all add: False)
      qed
      have "occ ?t = occ s' + 1" using occ_put_entry [OF rf(2) lt] False by simp
      then have freet: "occ ?t < capacity ?t"
        using rf(4) occ_le_capacity [OF wf] capt dbl c1 by simp
      have gone: "set_contains hash_fn eq_fn (Some ?t) key key_len = Some (Inr False)"
        if a: "\<forall>i v. i < capacity s \<and> live s i v \<longrightarrow> \<not> eq_fn (fst v) (snd v) key key_len"
          and b: "\<not> eq_fn k l key key_len" for key key_len
      proof (rule contains_absent [OF wft freet])
        fix i w assume iw: "i < capacity ?t" "live ?t i w"
        then have i: "i < capacity s'" by simp
        from live_put_entry [OF rf(2) lt i, of "(k, l)" w] iw(2)
        have "w = (k, l) \<or> live s' i w" by (simp split: if_splits)
        then show "\<not> eq_fn (fst w) (snd w) key key_len"
        proof
          assume "w = (k, l)"
          with b show ?thesis by simp
        next
          assume "live s' i w"
          then obtain i' where "i' < capacity s" "live s i' w"
            using rf(6) [of i w] i rf(3) by auto
          with a show ?thesis by blast
        qed
      qed
      have "no_tombstone ?t" using rf(2) rf(7) by (rule no_tombstone_put)
      with r capt keep gone show ?thesis by blast
    qed
  qed
  from rf(1) rf(3) rf(5) absent rf(7) trig show ?thesis by blast
qed

section \<open>The claims\<close>

text \<open>
  C1 (no duplicates). The claim: once \<open>insert k\<close> has succeeded, and whatever inserts and
  removes of other keys follow without a resize, a second \<open>insert k\<close> returns false and
  leaves the size as it is. The code does otherwise: after \<^verbatim>\<open>init\<close>,
  \<^verbatim>\<open>insert 42\<close>, the successful \<^verbatim>\<open>insert 25\<close> and the \<^verbatim>\<open>remove 42\<close>, the capacity
  is still 16, the second \<^verbatim>\<open>insert 25\<close> returns true and the size grows from 1 to 2.
\<close>

theorem C1_second_insert_succeeds:
  "set_init calloc_ok (Some ex_uninit) = (0, Some ex_s0) \<and>
   set_insert calloc_ok hashset_hash_int32 eq_u32 (Some ex_s0) 42 0 =
     Some (Inr (True, Some ex_s1)) \<and>
   set_insert calloc_ok hashset_hash_int32 eq_u32 (Some ex_s1) 25 0 =
     Some (Inr (True, Some ex_s2)) \<and>
   set_remove hashset_hash_int32 eq_u32 (Some ex_s2) 42 0 = Some (Inr (True, Some ex_s3)) \<and>
   set_insert calloc_ok hashset_hash_int32 eq_u32 (Some ex_s3) 25 0 =
     Some (Inr (True, Some ex_s4)) \<and>
   capacity ex_s1 = 16 \<and> capacity ex_s4 = 16 \<and>
   ssize ex_s3 = 1 \<and> ssize ex_s4 = 2"
  by (simp add: set_init_ok ex_insert_42 ex_insert_25 ex_remove_42 ex_insert_25_again)
    (simp add: ex_s1_def ex_s3_def ex_s4_def)

text \<open>
  C2 (uniqueness invariant). The claim: in every reachable state no two distinct slots
  are occupied with keys that compare equal. The code does otherwise: in the state after
  \<^verbatim>\<open>insert 42\<close>, \<^verbatim>\<open>insert 25\<close>, \<^verbatim>\<open>remove 42\<close>, \<^verbatim>\<open>insert 25\<close> the slots 9 and 10
  are both occupied and both hold the key 25.
\<close>

theorem C2_two_slots_hold_25:
  "set_insert calloc_ok hashset_hash_int32 eq_u32 (Some ex_s3) 25 0 =
     Some (Inr (True, Some ex_s4)) \<and>
   arr_read (state ex_s4) 9 = Inr 1 \<and> arr_read (state ex_s4) 10 = Inr 1 \<and>
   arr_read (data ex_s4) 9 = Inr (25, 0) \<and> arr_read (data ex_s4) 10 = Inr (25, 0) \<and>
   eq_u32 25 0 25 0"
  by (simp add: ex_insert_25_again) (simp add: ex_s4_def arr_read_def eq_u32_def)

text \<open>
  C3 (size accounting). The claim: in every reachable state the size field is the number
  of keys that \<^verbatim>\<open>contains\<close> finds. The code does otherwise: after \<^verbatim>\<open>insert 42\<close>,
  \<^verbatim>\<open>insert 25\<close>, \<^verbatim>\<open>remove 42\<close> the size field is 1 and \<^verbatim>\<open>contains\<close> finds no key.
\<close>

theorem C3_size_1_no_key_found:
  "set_remove hashset_hash_int32 eq_u32 (Some ex_s2) 42 0 = Some (Inr (True, Some ex_s3)) \<and>
   ssize ex_s3 = 1 \<and>
   {(k, l). set_contains hashset_hash_int32 eq_u32 (Some ex_s3) k l = Some (Inr True)} = {}"
  by (simp add: ex_remove_42 ex_s3_contains_nothing) (simp add: ex_s3_def)

text \<open>
  C4 (full table). The claim: on a table whose slots are all occupied, an operation on a
  key that is not stored returns the failure result and never uses the value that
  \<^verbatim>\<open>find_slot\<close> returns for a full table as an index. The code does otherwise. On the
  full table of one slot \<^verbatim>\<open>find_slot\<close> terminates and returns the capacity, and
  \<^verbatim>\<open>contains\<close> and \<^verbatim>\<open>remove\<close> then read the state array at that index, beyond its end.
  \<^verbatim>\<open>insert\<close> grows that table first and returns true, since its size field exceeds the
  load factor; with a size field of 0, so that it does not grow, \<^verbatim>\<open>insert\<close> reads
  beyond the end of the state array as well.
\<close>

theorem C4_full_table_out_of_bounds:
  "set_resize calloc_ok hashset_hash_int32 eq_u32 (Some ex_s1) 1 = Some (Inr (0, Some ex_full)) \<and>
   set_find_slot hashset_hash_int32 eq_u32 (Some ex_full) 1337 0 = Some (Inr (capacity ex_full)) \<and>
   set_contains hashset_hash_int32 eq_u32 (Some ex_full) 1337 0 = Some (Inl OutOfBounds) \<and>
   set_remove hashset_hash_int32 eq_u32 (Some ex_full) 1337 0 = Some (Inl OutOfBounds) \<and>
   set_insert calloc_ok hashset_hash_int32 eq_u32 (Some (ex_full\<lparr>ssize := 0\<rparr>)) 1337 0 =
     Some (Inl OutOfBounds) \<and>
   (\<exists>s'. set_insert calloc_ok hashset_hash_int32 eq_u32 (Some ex_full) 1337 0 =
     Some (Inr (True, Some s')) \<and> capacity s' = 2)"
proof -
  have "set_find_slot hashset_hash_int32 eq_u32 (Some ex_full) 1337 0 =
      Some (Inr (capacity ex_full))"
    by (simp add: hs_eval ex_full_def)
  moreover have "set_contains hashset_hash_int32 eq_u32 (Some ex_full) 1337 0 =
      Some (Inl OutOfBounds)"
    by (simp add: hs_eval ex_full_def)
  moreover have "set_remove hashset_hash_int32 eq_u32 (Some ex_full) 1337 0 =
      Some (Inl OutOfBounds)"
    by (simp add: hs_eval ex_full_def)
  moreover have "set_insert calloc_ok hashset_hash_int32 eq_u32
      (Some (ex_full\<lparr>ssize := 0\<rparr>)) 1337 0 = Some (Inl OutOfBounds)"
    by (simp add: hs_eval ex_full_def)
  moreover have "\<exists>s'. set_insert calloc_ok hashset_hash_int32 eq_u32 (Some ex_full) 1337 0 =
      Some (Inr (True, Some s')) \<and> capacity s' = 2"
    by (simp add: hs_eval ex_full_def)
  ultimately show ?thesis
    using ex_resize_1 by blast
qed



text \<open>
  C6 (init and allocation failure). The claim: \<^verbatim>\<open>init\<close> returns a negative result when
  the allocation of either array fails. The code does otherwise: \<^verbatim>\<open>init\<close> does not look
  at what \<^verbatim>\<open>HASHSET_CALLOC\<close> returns; when both allocations fail it returns 0 and
  leaves a set of capacity 16 whose two arrays are \<^verbatim>\<open>NULL\<close>, and the next
  \<^verbatim>\<open>insert\<close> reads through the \<^verbatim>\<open>NULL\<close> pointer.
\<close>

theorem C6_init_returns_0_when_calloc_fails:
  "set_init calloc_fails (Some ex_uninit) =
     (0, Some \<lparr>data = None, state = None, ssize = 0, capacity = 16\<rparr>) \<and>
   set_insert calloc_ok hashset_hash_int32 eq_u32
     (snd (set_init calloc_fails (Some ex_uninit))) 42 0 = Some (Inl NullDeref)"
proof -
  have "set_init calloc_fails (Some ex_uninit) =
      (0, Some \<lparr>data = None, state = None, ssize = 0, capacity = 16\<rparr>)"
    by (simp add: set_init_def calloc_data_def calloc_state_def calloc_fails_def
        HASHSET_INITIAL_CAPACITY_def ex_uninit_def)
  then show ?thesis by (simp add: hs_eval)
qed

text \<open>
  C7 (resize keeps membership and drops tombstones). The claim: after a resize, direct
  or by the load test of \<^verbatim>\<open>insert\<close>, \<^verbatim>\<open>contains\<close> is true for every live key and false
  for every previously removed key. The code does otherwise for a removed key. After
  \<^verbatim>\<open>init\<close>, \<^verbatim>\<open>insert 42\<close>, \<^verbatim>\<open>insert 25\<close>, \<^verbatim>\<open>remove 42\<close>, \<^verbatim>\<open>insert 25\<close> the
  key 25 is stored twice; \<^verbatim>\<open>remove 25\<close> returns true and \<^verbatim>\<open>contains 25\<close> is false, the
  second copy in slot 10 being hidden behind the tombstone of slot 9. A \<^verbatim>\<open>resize\<close> to
  capacity 32 inserts that copy again, and \<^verbatim>\<open>contains 25\<close> is true. The same happens
  when eleven more keys are inserted, none of which makes \<^verbatim>\<open>insert\<close> resize, and the
  load test fires on the insert of the key 12: before it \<^verbatim>\<open>contains 25\<close> is false,
  after it true.
\<close>

theorem C7_removed_key_found_after_resize:
  "reachable hashset_hash_int32 eq_u32 ex_s5 \<and>
   set_remove hashset_hash_int32 eq_u32 (Some ex_s4) 25 0 = Some (Inr (True, Some ex_s5)) \<and>
   set_contains hashset_hash_int32 eq_u32 (Some ex_s5) 25 0 = Some (Inr False) \<and>
   (\<exists>s'. set_resize calloc_ok hashset_hash_int32 eq_u32 (Some ex_s5) 32 =
        Some (Inr (0, Some s')) \<and>
      capacity s' = 32 \<and>
      set_contains hashset_hash_int32 eq_u32 (Some s') 25 0 = Some (Inr True)) \<and>
   (\<exists>rs. insert_seq hashset_hash_int32 eq_u32 ex_s5 ex_keys = Some rs \<and>
      map fst rs = replicate 11 False \<and> map (fst \<circ> snd) rs = replicate 11 True \<and>
      snd (snd (last rs)) = ex_t12) \<and>
   set_contains hashset_hash_int32 eq_u32 (Some ex_t12) 25 0 = Some (Inr False) \<and>
   load_exceeded ex_t12 \<and>
   (\<exists>s'. set_insert calloc_ok hashset_hash_int32 eq_u32 (Some ex_t12) 12 0 =
        Some (Inr (True, Some s')) \<and>
      capacity s' = 32 \<and>
      set_contains hashset_hash_int32 eq_u32 (Some s') 25 0 = Some (Inr True))"
proof -
  have "set_contains hashset_hash_int32 eq_u32 (Some ex_s5) 25 0 = Some (Inr False)"
    by (simp add: hs_eval ex_s5_def)
  moreover have "\<exists>s'. set_resize calloc_ok hashset_hash_int32 eq_u32 (Some ex_s5) 32 =
        Some (Inr (0, Some s')) \<and>
      capacity s' = 32 \<and>
      set_contains hashset_hash_int32 eq_u32 (Some s') 25 0 = Some (Inr True)"
    by (simp add: hs_eval ex_s5_def upt_16)
  moreover have "set_contains hashset_hash_int32 eq_u32 (Some ex_t12) 25 0 = Some (Inr False)"
    by (simp add: hs_eval ex_t12_def)
  moreover have "load_exceeded ex_t12" by (simp add: load_exceeded_def ex_t12_def)
  moreover have "\<exists>s'. set_insert calloc_ok hashset_hash_int32 eq_u32 (Some ex_t12) 12 0 =
        Some (Inr (True, Some s')) \<and>
      capacity s' = 32 \<and>
      set_contains hashset_hash_int32 eq_u32 (Some s') 25 0 = Some (Inr True)"
    by (simp add: hs_eval ex_t12_def upt_16)
  ultimately show ?thesis
    using reachable_ex_s5 ex_remove_25 ex_insert_keys_s5 by blast
qed

text \<open>
  C8 (growth by the load factor). After \<^verbatim>\<open>init\<close> the capacity is 16. Inserting 13
  keys that are pairwise different into the fresh set: every insert returns true, the
  load test fires on the 13th insert and on no other, the capacity is 16 after each of
  the first 12 inserts and 32, a power of two, after the 13th.
\<close>

theorem C8_growth_on_13th_insert:
  fixes hash_fn :: "('a::zero) hash_fn"
  assumes init: "set_init calloc_ok (Some u) = (rc, Some s0)"
    and len: "length ks = 13" and dist: "distinct_keys eq_fn ks"
  shows "capacity s0 = 16 \<and>
    (\<exists>rs. insert_seq hash_fn eq_fn s0 ks = Some rs \<and>
       map (\<lambda>(ld, b, s'). (ld, b, capacity s')) rs =
         replicate 12 (False, True, 16) @ [(True, True, 32)])"
proof -
  have s0: "s0 = fresh_table 16" using init by (rule set_init_fresh)
  have inv: "hs_inv s0" unfolding s0 by (rule hs_inv_fresh_16)
  have "ks \<noteq> []" using len by auto
  with insert_seq_fresh [OF inv, of ks eq_fn hash_fn] len dist
  show ?thesis by (simp add: s0 not_live_fresh)
qed

theorem C8_growth_on_13th_insert_witness:
  "set_init calloc_ok (Some ex_uninit) = (0, Some ex_s0) \<and> length ex_keys13 = 13 \<and>
   distinct_keys eq_u32 ex_keys13 \<and> capacity ex_s0 = 16 \<and>
   (\<exists>rs. insert_seq hashset_hash_int32 eq_u32 ex_s0 ex_keys13 = Some rs \<and>
      map (\<lambda>(ld, b, s'). (ld, b, capacity s')) rs =
        replicate 12 (False, True, 16) @ [(True, True, 32)])"
proof -
  have i: "set_init calloc_ok (Some ex_uninit) = (0, Some ex_s0)" by (rule set_init_ok)
  have l: "length ex_keys13 = 13" by (simp add: ex_keys13_def)
  have d: "distinct_keys eq_u32 ex_keys13" by (simp add: ex_keys13_def eq_u32_def)
  from C8_growth_on_13th_insert [OF i l d, of hashset_hash_int32] i l d
  show ?thesis by blast
qed

text \<open>
  C9 (destroy is idempotent). After \<^verbatim>\<open>destroy\<close> both array pointers are \<^verbatim>\<open>NULL\<close> and
  size and capacity are 0; a second \<^verbatim>\<open>destroy\<close> hands nothing to \<^verbatim>\<open>HASHSET_FREE\<close>
  and leaves the set as it is.
\<close>

theorem C9_destroy_idempotent:
  "snd (set_destroy (Some (s :: 'a hset))) =
     Some \<lparr>data = None, state = None, ssize = 0, capacity = 0\<rparr> \<and>
   set_destroy (snd (set_destroy (Some s))) = ([], snd (set_destroy (Some s)))"
  by (cases s) (simp add: set_destroy_def)

text \<open>
  C10 (a failed insert is not atomic). There is a reachable state, with 12 entries and
  a tombstone in 16 slots, and a stored key, 7, for which \<^verbatim>\<open>insert\<close> returns false and
  yet leaves another set: the capacity is doubled, the tombstone of slot 9 is gone, and
  the entry 1 has moved from slot 13 to slot 29.
\<close>

theorem C10_failed_insert_changes_state:
  "reachable hashset_hash_int32 eq_u32 ex_s12 \<and> load_exceeded ex_s12 \<and>
   arr_read (state ex_s12) 9 = Inr 2 \<and>
   (\<exists>s'. set_insert calloc_ok hashset_hash_int32 eq_u32 (Some ex_s12) 7 0 =
       Some (Inr (False, Some s')) \<and>
     s' \<noteq> ex_s12 \<and> capacity s' = 2 * capacity ex_s12 \<and>
     arr_read (state s') 9 = Inr 0 \<and>
     arr_read (data ex_s12) 13 = Inr (1, 0) \<and> arr_read (data s') 29 = Inr (1, 0))"
proof -
  have "load_exceeded ex_s12" by (simp add: load_exceeded_def ex_s12_def)
  moreover have "arr_read (state ex_s12) 9 = Inr 2" by (simp add: arr_read_def ex_s12_def)
  moreover have "\<exists>s'. set_insert calloc_ok hashset_hash_int32 eq_u32 (Some ex_s12) 7 0 =
       Some (Inr (False, Some s')) \<and>
     s' \<noteq> ex_s12 \<and> capacity s' = 2 * capacity ex_s12 \<and>
     arr_read (state s') 9 = Inr 0 \<and>
     arr_read (data ex_s12) 13 = Inr (1, 0) \<and> arr_read (data s') 29 = Inr (1, 0)"
    by (simp add: hs_eval ex_s12_def upt_16)
  ultimately show ?thesis using reachable_ex_s12 by blast
qed

end
